theory Spec2Isabelle
  imports Main "HOL-Library.Word"
begin

section \<open>Data model of Keypad.cpp\<close>

text \<open>
  The Arduino integer types. \<open>byte\<close> is 8 bits. \<open>millis()\<close> returns a 32-bit unsigned
  value, and \<open>uint\<close> (the type of the debounce and hold intervals and of one row of the
  bitmap) is the platform's \<open>unsigned int\<close>; the comparisons with the intervals are made
  in 32-bit unsigned arithmetic, so the intervals are modelled at that width.
\<close>

type_synonym byte = "8 word"
type_synonym uint = "32 word"
type_synonym uint32_t = "32 word"

datatype KeyState = IDLE | PRESSED | HOLD | RELEASED

text \<open>
  One entry of the key list (class \<open>Key\<close>): \<open>kcode\<close> is compared with a \<open>byte\<close> and
  assigned \<open>-1\<close>, so it is a signed integer holding \<open>-1\<close> or a value in \<open>0..255\<close>.
\<close>

record Key =
  kchar :: char
  kcode :: int
  kstate :: KeyState
  stateChanged :: bool

record KeypadSize =
  rows :: byte
  columns :: byte

text \<open>
  A registered listener is a function pointer; the model keeps its identity only.
  What the keypad does to the outside (pin writes and reads, listener calls, the
  diagnostic print) is appended to a trace, in the order of the calls.
\<close>

type_synonym listener = nat

datatype effect =
    PinWrite byte bool
  | PinRead byte
  | EventListener listener char
  | StatedEventListener listener char KeyState
  | SerialPrintf uint32_t

text \<open>
  The object's members, followed by the environment it runs in. \<open>rowPins\<close>,
  \<open>columnPins\<close> and \<open>keymap\<close> are pointers into the caller's arrays: functions from an
  offset to the element there. \<open>key\<close> is the array \<open>key[KEYPAD_LIST_MAX]\<close> and
  \<open>bitMap\<close> the array of bitmap rows. \<open>NULL\<close> for a listener is \<open>None\<close>.

  The environment: \<open>clock n\<close> is what the \<open>n\<close>-th call of \<open>millis()\<close> returns and
  \<open>ticks\<close> counts the calls made so far; \<open>pin_input n\<close> is what the \<open>n\<close>-th call of
  \<open>pin_read\<close> returns (\<open>True\<close> for HIGH) and \<open>reads\<close> counts those calls.
\<close>

record Keypad =
  rowPins :: "nat \<Rightarrow> byte"
  columnPins :: "nat \<Rightarrow> byte"
  sizeKpd :: KeypadSize
  keymap :: "nat \<Rightarrow> char"
  bitMap :: "uint list"
  key :: "Key list"
  debounceTime :: uint
  holdTime :: uint
  startTime :: uint32_t
  holdTimer :: uint32_t
  keypadEventListener :: "listener option"
  keypadStatedEventListener :: "listener option"
  clock :: "nat \<Rightarrow> uint32_t"
  ticks :: nat
  pin_input :: "nat \<Rightarrow> bool"
  reads :: nat
  trace :: "effect list"

subsection \<open>Constants of Keypad.h\<close>

text \<open>
  The header is not part of the sources. \<open>KEYPAD_LIST_MAX\<close> is the declared size of the
  array \<open>key\<close>, so it is the length of the list that models the array.
\<close>

definition KEYPAD_LIST_MAX :: "Keypad \<Rightarrow> nat" where
  "KEYPAD_LIST_MAX s = length (key s)"

text \<open>
  Modelled from the spec: the macro \<open>KEYPAD_NO_KEY\<close> of Keypad.h, the character "none"
  that marks an empty slot. The proofs below never use which character it is.
\<close>

definition KEYPAD_NO_KEY :: char where
  "KEYPAD_NO_KEY = CHR 0x00"

text \<open>
  Modelled from the spec: the macros \<open>KEYPAD_CLOSED\<close> and \<open>KEYPAD_OPEN\<close> of Keypad.h.
  A bit of the bitmap is set when the cell reads as electrically closed, and the state
  machine's input is "closed" or "open".
\<close>

definition KEYPAD_CLOSED :: bool where
  "KEYPAD_CLOSED = True"

definition KEYPAD_OPEN :: bool where
  "KEYPAD_OPEN = False"

text \<open>The two levels of a digital pin, \<open>HIGH\<close> and \<open>LOW\<close> of the Arduino core.\<close>

definition HIGH :: bool where
  "HIGH = True"

definition LOW :: bool where
  "LOW = False"

section \<open>The platform: clock and pins\<close>

text \<open>
  Modelled from the spec: the Pin Interface (\<open>millis\<close>, \<open>pin_write\<close>, \<open>pin_read\<close>) is
  supplied by the host platform. Each call consumes the next value of the environment.
\<close>

definition millis :: "Keypad \<Rightarrow> uint32_t \<times> Keypad" where
  "millis s = (clock s (ticks s), s\<lparr>ticks := Suc (ticks s)\<rparr>)"

definition pin_write :: "byte \<Rightarrow> bool \<Rightarrow> Keypad \<Rightarrow> Keypad" where
  "pin_write pin level s = s\<lparr>trace := trace s @ [PinWrite pin level]\<rparr>"

definition pin_read :: "byte \<Rightarrow> Keypad \<Rightarrow> bool \<times> Keypad" where
  "pin_read pin s =
     (pin_input s (reads s), s\<lparr>reads := Suc (reads s), trace := trace s @ [PinRead pin]\<rparr>)"

definition bitWrite :: "uint \<Rightarrow> nat \<Rightarrow> bool \<Rightarrow> uint" where
  "bitWrite x n b = (if b then set_bit n x else unset_bit n x)"

definition bitRead :: "uint \<Rightarrow> nat \<Rightarrow> bool" where
  "bitRead x n = bit x n"

section \<open>The operations of Keypad.cpp\<close>

text \<open>
  Loop counters are declared \<open>byte\<close> and stay below a bound that fits a byte, so they are
  natural numbers here; the same holds for the slot index \<open>idx\<close> that \<open>transitionTo\<close>
  and \<open>nextKeyState\<close> receive. An index outside the array is undefined behaviour in the
  source; the theorems below are stated for indices inside it.
\<close>

subsection \<open>Configuration\<close>

definition setDebounceTime :: "uint \<Rightarrow> Keypad \<Rightarrow> Keypad" where
  "setDebounceTime debounce s =
     (if debounce < 1 then s\<lparr>debounceTime := 1\<rparr> else s\<lparr>debounceTime := debounce\<rparr>)"

definition setHoldTime :: "uint \<Rightarrow> Keypad \<Rightarrow> Keypad" where
  "setHoldTime hold s = s\<lparr>holdTime := hold\<rparr>"

definition addEventListener :: "listener option \<Rightarrow> Keypad \<Rightarrow> Keypad" where
  "addEventListener l s = s\<lparr>keypadEventListener := l\<rparr>"

definition addStatedEventListener :: "listener option \<Rightarrow> Keypad \<Rightarrow> Keypad" where
  "addStatedEventListener l s = s\<lparr>keypadStatedEventListener := l\<rparr>"

subsection \<open>Event dispatch and the per-key state machine\<close>

text \<open>
  A listener is user code; the model records the call and its arguments and takes the
  listener not to change the keypad object.
\<close>

definition transitionTo :: "nat \<Rightarrow> KeyState \<Rightarrow> Keypad \<Rightarrow> Keypad" where
  "transitionTo idx nextState s =
     (let s1 = s\<lparr>key := (key s)[idx := (key s ! idx)\<lparr>kstate := nextState, stateChanged := True\<rparr>]\<rparr>;
          s2 = (case keypadEventListener s1 of
                  None \<Rightarrow> s1
                | Some f \<Rightarrow> s1\<lparr>trace := trace s1 @ [EventListener f (kchar (key s1 ! idx))]\<rparr>)
      in (case keypadStatedEventListener s2 of
            None \<Rightarrow> s2
          | Some g \<Rightarrow>
              s2\<lparr>trace := trace s2 @ [StatedEventListener g (kchar (key s2 ! idx)) nextState]\<rparr>))"

definition nextKeyState :: "nat \<Rightarrow> bool \<Rightarrow> Keypad \<Rightarrow> Keypad" where
  "nextKeyState idx button s0 =
     (let s = s0\<lparr>key := (key s0)[idx := (key s0 ! idx)\<lparr>stateChanged := False\<rparr>]\<rparr>
      in case kstate (key s ! idx) of
           IDLE \<Rightarrow>
             if button = KEYPAD_CLOSED
             then (let s1 = transitionTo idx PRESSED s; (t, s2) = millis s1
                   in s2\<lparr>holdTimer := t\<rparr>)
             else s
         | PRESSED \<Rightarrow>
             (let (t, s1) = millis s
              in if t - holdTimer s1 > holdTime s1 then transitionTo idx HOLD s1
                 else if button = KEYPAD_OPEN then transitionTo idx RELEASED s1
                 else s1)
         | HOLD \<Rightarrow> if button = KEYPAD_OPEN then transitionTo idx RELEASED s else s
         | RELEASED \<Rightarrow> transitionTo idx IDLE s)"

subsection \<open>Hardware scan\<close>

definition writeRowPre :: "nat \<Rightarrow> Keypad \<Rightarrow> Keypad" where
  "writeRowPre n s = pin_write (rowPins s n) LOW s"

definition writeRowPost :: "nat \<Rightarrow> Keypad \<Rightarrow> Keypad" where
  "writeRowPost n s = pin_write (rowPins s n) HIGH s"

definition readRow :: "nat \<Rightarrow> Keypad \<Rightarrow> bool \<times> Keypad" where
  "readRow n s = (let (v, s1) = pin_read (columnPins s n) s in (\<not> v, s1))"

definition scanColumn :: "nat \<Rightarrow> nat \<Rightarrow> Keypad \<Rightarrow> Keypad" where
  "scanColumn r c s =
     (let (b, s1) = readRow c s
      in s1\<lparr>bitMap := (bitMap s1)[r := bitWrite (bitMap s1 ! r) c b]\<rparr>)"

definition scanRow :: "nat \<Rightarrow> Keypad \<Rightarrow> Keypad" where
  "scanRow r s =
     writeRowPost r (fold (scanColumn r) [0..<unat (columns (sizeKpd s))] (writeRowPre r s))"

definition scanKeys :: "Keypad \<Rightarrow> Keypad" where
  "scanKeys s = fold scanRow [0..<unat (rows (sizeKpd s))] s"

subsection \<open>The key list\<close>

text \<open>
  \<open>findInList(byte)\<close> returns the first index whose \<open>kcode\<close> equals the code, converted
  from \<open>byte\<close> to \<open>int8_t\<close>, or \<open>-1\<close>.
\<close>

definition findInList :: "byte \<Rightarrow> Keypad \<Rightarrow> int" where
  "findInList keyCode s =
     (case List.find (\<lambda>i. kcode (key s ! i) = uint keyCode) [0..<KEYPAD_LIST_MAX s] of
        Some i \<Rightarrow> sint (word_of_nat i :: 8 word)
      | None \<Rightarrow> -1)"

text \<open>The first loop of \<open>updateList\<close>, one iteration: the state and \<open>emptyPos\<close>.\<close>

definition deleteIdle :: "nat \<Rightarrow> Keypad \<times> byte \<Rightarrow> Keypad \<times> byte" where
  "deleteIdle i = (\<lambda>(s, emptyPos).
     let s1 = (if kstate (key s ! i) = IDLE
               then s\<lparr>key := (key s)[i := (key s ! i)\<lparr>kchar := KEYPAD_NO_KEY, kcode := -1,
                                                      stateChanged := False\<rparr>]\<rparr>
               else s)
     in (s1, if emptyPos = 0xFF \<and> kchar (key s1 ! i) = KEYPAD_NO_KEY
             then word_of_nat i else emptyPos))"

text \<open>The search for the next empty slot after an allocation (the loop with \<open>break\<close>).\<close>

definition nextEmpty :: "Keypad \<Rightarrow> byte" where
  "nextEmpty s =
     (case List.find (\<lambda>i. kchar (key s ! i) = KEYPAD_NO_KEY) [0..<KEYPAD_LIST_MAX s] of
        Some i \<Rightarrow> word_of_nat i
      | None \<Rightarrow> 0xFF)"

text \<open>The body of the two nested loops over the cells, for row \<open>r\<close> and column \<open>c\<close>.\<close>

definition addKey :: "nat \<Rightarrow> nat \<Rightarrow> Keypad \<times> byte \<Rightarrow> Keypad \<times> byte" where
  "addKey r c = (\<lambda>(s, emptyPos).
     let button = bitRead (bitMap s ! r) c;
         keyCode = (word_of_nat r * columns (sizeKpd s) + word_of_nat c :: byte);
         keyChar = keymap s (unat keyCode);
         idx = findInList keyCode s
     in if idx \<ge> 0 then (nextKeyState (nat idx) button s, emptyPos)
        else if button \<and> emptyPos \<noteq> 0xFF
        then (let e = unat emptyPos;
                  s1 = s\<lparr>key := (key s)[e := (key s ! e)\<lparr>kchar := keyChar,
                                                         kcode := uint keyCode,
                                                         kstate := IDLE\<rparr>]\<rparr>;
                  s2 = nextKeyState e button s1
              in (s2, nextEmpty s2))
        else (s, emptyPos))"

definition addKeys :: "Keypad \<times> byte \<Rightarrow> Keypad \<times> byte" where
  "addKeys = (\<lambda>(s, emptyPos).
     fold (\<lambda>r. fold (addKey r) [0..<unat (columns (sizeKpd s))])
          [0..<unat (rows (sizeKpd s))] (s, emptyPos))"

definition updateList :: "Keypad \<Rightarrow> bool \<times> Keypad" where
  "updateList s0 =
     (let (s1, emptyPos) = fold deleteIdle [0..<KEYPAD_LIST_MAX s0] (s0, 0xFF);
          (tmpTime, s2) = millis s1;
          (s3, e3) = addKeys (s2, emptyPos);
          (t1, s4) = millis s3;
          s5 = (if t1 - tmpTime > 0
                then (let (t2, s') = millis s4
                      in s'\<lparr>trace := trace s' @ [SerialPrintf (t2 - tmpTime)]\<rparr>)
                else s4)
      in (list_ex (\<lambda>i. stateChanged (key s5 ! i)) [0..<KEYPAD_LIST_MAX s5], s5))"

subsection \<open>Polling and queries\<close>

definition getKeys :: "Keypad \<Rightarrow> bool \<times> Keypad" where
  "getKeys s =
     (let (t, s1) = millis s
      in if t - startTime s1 > debounceTime s1
         then (let s2 = scanKeys s1;
                   (keyActivity, s3) = updateList s2;
                   (t', s4) = millis s3
               in (keyActivity, s4\<lparr>startTime := t'\<rparr>))
         else (False, s1))"

definition getState :: "Keypad \<Rightarrow> KeyState" where
  "getState s = kstate (key s ! 0)"

definition keyStateChanged :: "Keypad \<Rightarrow> bool" where
  "keyStateChanged s = stateChanged (key s ! 0)"

section \<open>The specification's side\<close>

text \<open>
  The transition table of the specification, written from its words: the next state for
  a state, the raw input (closed or open), the time elapsed since the hold-timer anchor
  and the hold interval.
\<close>

fun table_next :: "KeyState \<Rightarrow> bool \<Rightarrow> uint32_t \<Rightarrow> uint \<Rightarrow> KeyState" where
  "table_next IDLE closed elapsed hold_interval = (if closed then PRESSED else IDLE)"
| "table_next PRESSED closed elapsed hold_interval =
     (if elapsed > hold_interval then HOLD else if \<not> closed then RELEASED else PRESSED)"
| "table_next HOLD closed elapsed hold_interval = (if \<not> closed then RELEASED else HOLD)"
| "table_next RELEASED closed elapsed hold_interval = IDLE"

text \<open>One step of the table, for some input and some elapsed time.\<close>

definition tableStep :: "KeyState \<Rightarrow> KeyState \<Rightarrow> bool" where
  "tableStep a b = (\<exists>closed elapsed hold_interval. b = table_next a closed elapsed hold_interval)"

text \<open>
  What the Event Dispatcher of the specification emits for one transition of a key with
  character \<open>c\<close> to state \<open>st\<close>: the character-only listener first, then the listener
  that takes the character and the new state; a listener that is not registered emits
  nothing.
\<close>

definition listenerCalls :: "Keypad \<Rightarrow> char \<Rightarrow> KeyState \<Rightarrow> effect list" where
  "listenerCalls s c st =
     (case keypadEventListener s of None \<Rightarrow> [] | Some f \<Rightarrow> [EventListener f c]) @
     (case keypadStatedEventListener s of
        None \<Rightarrow> []
      | Some g \<Rightarrow> [StatedEventListener g c st])"

text \<open>
  The states one slot goes through when \<open>nextKeyState\<close> is applied to it for each raw
  input in turn: the state before the first input, then the state after each input.
\<close>

fun keyStates :: "nat \<Rightarrow> bool list \<Rightarrow> Keypad \<Rightarrow> KeyState list" where
  "keyStates idx [] s = [kstate (key s ! idx)]"
| "keyStates idx (closed # inputs) s =
     kstate (key s ! idx) # keyStates idx inputs (nextKeyState idx closed s)"

subsection \<open>An example keypad\<close>

text \<open>
  Two rows and two columns with the key map \<open>1234\<close>, a key list of two slots, the
  constructor's intervals (debounce 10 ms, hold 500 ms) and both listeners registered.
\<close>

definition idleKey :: Key where
  "idleKey = \<lparr>kchar = KEYPAD_NO_KEY, kcode = -1, kstate = IDLE, stateChanged = False\<rparr>"

definition demo :: Keypad where
  "demo = \<lparr>rowPins = (\<lambda>i. [5, 6] ! i), columnPins = (\<lambda>i. [7, 8] ! i),
           sizeKpd = \<lparr>rows = 2, columns = 2\<rparr>,
           keymap = (\<lambda>i. ''1234'' ! i),
           bitMap = [0, 0],
           key = [idleKey, idleKey],
           debounceTime = 10, holdTime = 500, startTime = 0, holdTimer = 0,
           keypadEventListener = Some 1, keypadStatedEventListener = Some 2,
           clock = (\<lambda>n. 0), ticks = 0, pin_input = (\<lambda>n. True), reads = 0, trace = []\<rparr>"

text \<open>
  One registry update at a given time and with a given bitmap: the clock reads \<open>t\<close>
  during the whole update.
\<close>

definition update_at :: "uint32_t \<Rightarrow> uint list \<Rightarrow> Keypad \<Rightarrow> Keypad" where
  "update_at t bm s = snd (updateList (s\<lparr>clock := (\<lambda>n. t), bitMap := bm\<rparr>))"

text \<open>
  The example keypad after key 0 was pressed at time 0 and key 1 at time 400, both still
  closed; and the example keypad with every column pin reading LOW, that is with every
  key closed.
\<close>

definition pressed_demo :: Keypad where
  "pressed_demo = update_at 400 [3, 0] (update_at 0 [1, 0] demo)"

definition all_closed :: Keypad where
  "all_closed = demo\<lparr>pin_input := (\<lambda>n. False)\<rparr>"

section \<open>Invariants of the key list\<close>

text \<open>What the first loop of \<open>updateList\<close> does to one slot.\<close>

definition clearIdle :: "Key \<Rightarrow> Key" where
  "clearIdle k = (if kstate k = IDLE
                  then k\<lparr>kchar := KEYPAD_NO_KEY, kcode := -1, stateChanged := False\<rparr> else k)"

text \<open>
  The number of cells of the grid, and the linear key code of the cell in row \<open>r\<close> and
  column \<open>c\<close>.
\<close>

definition nCells :: "Keypad \<Rightarrow> nat" where
  "nCells s = unat (rows (sizeKpd s)) * unat (columns (sizeKpd s))"

definition cellCode :: "Keypad \<Rightarrow> nat \<Rightarrow> nat \<Rightarrow> nat" where
  "cellCode s r c = r * unat (columns (sizeKpd s)) + c"

text \<open>
  The caller's obligations, which the code does not check: the key list has at most 128
  slots (\<open>findInList\<close> returns the index as \<open>int8_t\<close>), the bitmap has a row for every
  row of the grid and a bit for every column, the key codes fit a byte, and the key map
  has a character other than \<open>KEYPAD_NO_KEY\<close> for every cell.
\<close>

definition geometry_ok :: "Keypad \<Rightarrow> bool" where
  "geometry_ok s =
     (KEYPAD_LIST_MAX s \<le> 128
      \<and> unat (rows (sizeKpd s)) \<le> length (bitMap s)
      \<and> unat (columns (sizeKpd s)) \<le> 32
      \<and> nCells s \<le> 256
      \<and> list_all (\<lambda>k. keymap s k \<noteq> KEYPAD_NO_KEY) [0..<nCells s])"

text \<open>
  A well-formed slot is empty (no character, code \<open>-1\<close>, IDLE, flag clear) or holds a
  character and the code of a cell of the grid. A well-formed list has well-formed slots,
  and no key code in two of them.
\<close>

definition slot_ok :: "nat \<Rightarrow> Key \<Rightarrow> bool" where
  "slot_ok n k =
     (if kchar k = KEYPAD_NO_KEY then kcode k = -1 \<and> kstate k = IDLE \<and> \<not> stateChanged k
      else 0 \<le> kcode k \<and> kcode k < int n)"

definition registry_ok :: "Keypad \<Rightarrow> bool" where
  "registry_ok s =
     (\<forall>i<length (key s). slot_ok (nCells s) (key s ! i)
        \<and> (\<forall>j<length (key s). kcode (key s ! j) = kcode (key s ! i)
              \<longrightarrow> kcode (key s ! i) = -1 \<or> j = i))"

text \<open>The slot of a key that has just been added to the list.\<close>

definition newKey :: "Keypad \<Rightarrow> nat \<Rightarrow> Key" where
  "newKey s k = \<lparr>kchar = keymap s k, kcode = int k, kstate = PRESSED, stateChanged = True\<rparr>"

text \<open>
  The invariant of the loop over the cells: a well-formed keypad, and \<open>emptyPos\<close> is the
  first empty slot (or \<open>0xFF\<close> when there is none).
\<close>

definition scan_inv :: "Keypad \<times> byte \<Rightarrow> bool" where
  "scan_inv = (\<lambda>(s, e). geometry_ok s \<and> registry_ok s \<and> e = nextEmpty s)"

text \<open>
  The cells in the order of the two nested loops, and for one cell: whether it is inside
  the grid, whether its bit of the bitmap is set, and its key code.
\<close>

definition cells :: "Keypad \<Rightarrow> (nat \<times> nat) list" where
  "cells s = List.product [0..<unat (rows (sizeKpd s))] [0..<unat (columns (sizeKpd s))]"

definition in_grid :: "Keypad \<Rightarrow> nat \<times> nat \<Rightarrow> bool" where
  "in_grid s = (\<lambda>(r, c). r < unat (rows (sizeKpd s)) \<and> c < unat (columns (sizeKpd s)))"

definition cellClosed :: "Keypad \<Rightarrow> nat \<times> nat \<Rightarrow> bool" where
  "cellClosed s = (\<lambda>(r, c). bitRead (bitMap s ! r) c)"

definition codeOf :: "Keypad \<Rightarrow> nat \<times> nat \<Rightarrow> nat" where
  "codeOf s = (\<lambda>(r, c). cellCode s r c)"

text \<open>What no step of an update changes.\<close>

definition static :: "Keypad \<Rightarrow> Keypad \<Rightarrow> bool" where
  "static s s' = (sizeKpd s' = sizeKpd s \<and> keymap s' = keymap s \<and> bitMap s' = bitMap s
                  \<and> length (key s') = length (key s))"

text \<open>A cell that is tracked, or open, or met when no slot is empty, allocates nothing.\<close>

definition no_alloc :: "Keypad \<times> byte \<Rightarrow> nat \<times> nat \<Rightarrow> bool" where
  "no_alloc p x = (int (codeOf (fst p) x) \<in> set (map kcode (key (fst p)))
                   \<or> \<not> cellClosed (fst p) x \<or> snd p = 0xFF)"

text \<open>The keypad after the first loop of \<open>updateList\<close> and the clock reading that follows it.\<close>

definition cleaned :: "Keypad \<Rightarrow> Keypad" where
  "cleaned s = s\<lparr>key := map clearIdle (key s), ticks := Suc (ticks s)\<rparr>"

text \<open>
  Modelled from the spec: the empty registry. Class \<open>Key\<close> and its constructor are not in
  the sources; an empty slot is a slot as the cleanup pass leaves it.
\<close>

definition registry_empty :: "Keypad \<Rightarrow> bool" where
  "registry_empty s = list_all (\<lambda>k. k = idleKey) (key s)"

text \<open>
  The reachable states: from an empty key list, by polls (\<open>getKeys\<close>), by updates
  (\<open>updateList\<close>), and by anything from outside that leaves the key list, the key map
  and the geometry alone (keys pressed and released, time passing, intervals and
  listeners set).
\<close>

inductive reachable :: "Keypad \<Rightarrow> bool" where
  start: "geometry_ok s \<Longrightarrow> registry_empty s \<Longrightarrow> reachable s"
| poll: "reachable s \<Longrightarrow> reachable (snd (getKeys s))"
| update: "reachable s \<Longrightarrow> reachable (snd (updateList s))"
| outside: "reachable s \<Longrightarrow> geometry_ok s' \<Longrightarrow> key s' = key s \<Longrightarrow> sizeKpd s' = sizeKpd s \<Longrightarrow>
            keymap s' = keymap s \<Longrightarrow> reachable s'"

text \<open>What a hardware scan leaves alone.\<close>

definition same_list :: "Keypad \<Rightarrow> Keypad \<Rightarrow> bool" where
  "same_list s s' = (key s' = key s \<and> sizeKpd s' = sizeKpd s \<and> keymap s' = keymap s
                     \<and> length (bitMap s') = length (bitMap s))"

text \<open>The example keypad after key 0 was pressed at time 0 and released at time 20.\<close>

definition released_demo :: Keypad where
  "released_demo = update_at 20 [0, 0] (update_at 0 [1, 0] demo)"

text \<open>
  The new presses of an update: the closed cells whose key code is in no slot that
  survives the cleanup pass, in the order of the loops.
\<close>

definition newPresses :: "Keypad \<Rightarrow> (nat \<times> nat) list" where
  "newPresses s =
     filter (\<lambda>x. cellClosed s x
                \<and> int (codeOf s x) \<notin> set (map kcode (filter (\<lambda>k. kstate k \<noteq> IDLE) (key s))))
            (cells s)"

text \<open>
  The example keypad with key 0 pressed, and then keys 0, 2 and 3 closed in the bitmap:
  one slot is free and two new presses compete for it.
\<close>

definition contended_demo :: Keypad where
  "contended_demo = (update_at 0 [1, 0] demo)\<lparr>bitMap := [1, 3]\<rparr>"

text \<open>
  The number of empty slots of a key list, and whether a cell is a new press for a
  keypad in the middle of an update: closed, and its code in no slot.
\<close>

definition freeSlots :: "Key list \<Rightarrow> nat" where
  "freeSlots ks = length (filter (\<lambda>k. kchar k = KEYPAD_NO_KEY) ks)"

definition isNew :: "Keypad \<Rightarrow> nat \<times> nat \<Rightarrow> bool" where
  "isNew s x = (cellClosed s x \<and> int (codeOf s x) \<notin> set (map kcode (key s)))"

text \<open>The example keypad, two slots, with the keys 0, 1 and 2 closed in the bitmap.\<close>

definition crowded_demo :: Keypad where
  "crowded_demo = demo\<lparr>bitMap := [3, 1]\<rparr>"

section \<open>The state machine of one key\<close>

lemma Key_kstate_same:
  "kstate k = st \<Longrightarrow> k\<lparr>kstate := st, stateChanged := c\<rparr> = k\<lparr>stateChanged := c\<rparr>"
  by (cases k) simp

lemma transitionTo_eq:
  "idx < length (key s) \<Longrightarrow>
   transitionTo idx st s =
     s\<lparr>key := (key s)[idx := (key s ! idx)\<lparr>kstate := st, stateChanged := True\<rparr>],
       trace := trace s @ listenerCalls s (kchar (key s ! idx)) st\<rparr>"
  by (simp add: transitionTo_def listenerCalls_def Let_def split: option.splits)

text \<open>\<open>nextKeyState\<close> in one equation: what it writes to the slot, the timer, the clock and the trace.\<close>

lemma nextKeyState_eq:
  assumes "idx < length (key s)"
  shows "nextKeyState idx closed s =
     (let st = kstate (key s ! idx);
          st' = table_next st closed (clock s (ticks s) - holdTimer s) (holdTime s)
      in s\<lparr>key := (key s)[idx := (key s ! idx)\<lparr>kstate := st', stateChanged := (st' \<noteq> st)\<rparr>],
           holdTimer := (if st = IDLE \<and> closed then clock s (ticks s) else holdTimer s),
           ticks := (if st = IDLE \<and> closed \<or> st = PRESSED then Suc (ticks s) else ticks s),
           trace := (if st' \<noteq> st then trace s @ listenerCalls s (kchar (key s ! idx)) st'
                     else trace s)\<rparr>)"
proof (cases "kstate (key s ! idx)")
  case IDLE
  with assms show ?thesis
    by (simp add: nextKeyState_def transitionTo_eq millis_def Let_def KEYPAD_CLOSED_def
        listenerCalls_def Key_kstate_same)
next
  case PRESSED
  with assms show ?thesis
    by (simp add: nextKeyState_def transitionTo_eq millis_def Let_def KEYPAD_OPEN_def
        listenerCalls_def Key_kstate_same)
next
  case HOLD
  with assms show ?thesis
    by (simp add: nextKeyState_def transitionTo_eq millis_def Let_def KEYPAD_OPEN_def
        listenerCalls_def Key_kstate_same)
next
  case RELEASED
  with assms show ?thesis
    by (simp add: nextKeyState_def transitionTo_eq millis_def Let_def listenerCalls_def
        Key_kstate_same)
qed

lemma nextKeyState_length:
  "idx < length (key s) \<Longrightarrow> length (key (nextKeyState idx closed s)) = length (key s)"
  by (simp add: nextKeyState_eq Let_def)

lemma nextKeyState_kstate:
  "idx < length (key s) \<Longrightarrow>
   kstate (key (nextKeyState idx closed s) ! idx) =
     table_next (kstate (key s ! idx)) closed (clock s (ticks s) - holdTimer s) (holdTime s)"
  by (simp add: nextKeyState_eq Let_def)

lemma nextKeyState_stateChanged:
  "idx < length (key s) \<Longrightarrow>
   stateChanged (key (nextKeyState idx closed s) ! idx) =
     (kstate (key (nextKeyState idx closed s) ! idx) \<noteq> kstate (key s ! idx))"
  by (simp add: nextKeyState_eq Let_def)

lemma nextKeyState_holdTimer:
  "idx < length (key s) \<Longrightarrow>
   holdTimer (nextKeyState idx closed s) =
     (if kstate (key s ! idx) = IDLE \<and> closed then clock s (ticks s) else holdTimer s)"
  by (simp add: nextKeyState_eq Let_def)

lemma nextKeyState_trace:
  "idx < length (key s) \<Longrightarrow>
   trace (nextKeyState idx closed s) =
     (if kstate (key (nextKeyState idx closed s) ! idx) \<noteq> kstate (key s ! idx)
      then trace s @ listenerCalls s (kchar (key s ! idx))
                       (kstate (key (nextKeyState idx closed s) ! idx))
      else trace s)"
  by (simp add: nextKeyState_eq Let_def)

subsection \<open>Paths through the table\<close>

lemma tableStep_into_PRESSED: "tableStep a PRESSED \<Longrightarrow> a = IDLE \<or> a = PRESSED"
  by (cases a) (auto simp: tableStep_def split: if_splits)

lemma tableStep_into_IDLE: "tableStep a IDLE \<Longrightarrow> a = RELEASED \<or> a = IDLE"
  by (cases a) (auto simp: tableStep_def split: if_splits)

lemma keyStates_length: "length (keyStates idx inputs s) = Suc (length inputs)"
  by (induction inputs arbitrary: s) simp_all

lemma keyStates_chain:
  "idx < length (key s) \<Longrightarrow> Suc n < length (keyStates idx inputs s) \<Longrightarrow>
   tableStep (keyStates idx inputs s ! n) (keyStates idx inputs s ! Suc n)"
proof (induction inputs arbitrary: s n)
  case Nil
  then show ?case by simp
next
  case (Cons c inputs)
  show ?case
  proof (cases n)
    case 0
    have "keyStates idx inputs (nextKeyState idx c s) ! 0 =
          kstate (key (nextKeyState idx c s) ! idx)"
      by (cases inputs) simp_all
    with 0 Cons.prems show ?thesis
      by (auto simp: tableStep_def nextKeyState_kstate)
  next
    case (Suc m)
    with Cons.prems Cons.IH[of "nextKeyState idx c s" m] show ?thesis
      by (simp add: nextKeyState_length)
  qed
qed

text \<open>
  If state \<open>X\<close> can only be entered from \<open>Y\<close>, a path that is outside \<open>X\<close> at position
  \<open>a\<close> and in \<open>X\<close> at a later position \<open>k\<close> is in \<open>Y\<close> somewhere from \<open>a\<close> up to \<open>k\<close>.
\<close>

lemma chain_enter:
  fixes T :: "KeyState list"
  assumes chain: "\<And>n. Suc n < length T \<Longrightarrow> tableStep (T ! n) (T ! Suc n)"
    and only: "\<And>a. tableStep a X \<Longrightarrow> a = Y \<or> a = X"
  shows "a < k \<Longrightarrow> k < length T \<Longrightarrow> T ! a \<noteq> X \<Longrightarrow> T ! k = X \<Longrightarrow>
         \<exists>n. a \<le> n \<and> n < k \<and> T ! n = Y"
proof (induction k)
  case 0
  then show ?case by simp
next
  case (Suc k)
  have "tableStep (T ! k) X" using chain[of k] Suc.prems by simp
  then have "T ! k = Y \<or> T ! k = X" by (rule only)
  then show ?case
  proof
    assume "T ! k = Y"
    moreover have "a \<le> k" "k < Suc k" using Suc.prems by simp_all
    ultimately show ?thesis by blast
  next
    assume kx: "T ! k = X"
    then have "a \<noteq> k" using Suc.prems by auto
    then have "a < k" using Suc.prems by simp
    with Suc.IH kx Suc.prems obtain n where "a \<le> n" "n < k" "T ! n = Y" by auto
    then show ?thesis by (intro exI[of _ n]) simp
  qed
qed

lemma chain_released:
  fixes T :: "KeyState list"
  assumes chain: "\<And>n. Suc n < length T \<Longrightarrow> tableStep (T ! n) (T ! Suc n)"
    and "i < j" "j < k" "k < length T" "T ! i = PRESSED" "T ! j \<noteq> PRESSED" "T ! k = PRESSED"
  shows "\<exists>m n. i < m \<and> m < n \<and> n < k \<and> T ! m = RELEASED \<and> T ! n = IDLE"
proof -
  from chain_enter[where T=T and X=PRESSED and Y=IDLE and a=j and k=k]
    chain assms(3-) tableStep_into_PRESSED
  obtain n where n: "j \<le> n" "n < k" "T ! n = IDLE" by blast
  have "i < n" using assms(2) n by simp
  moreover have "T ! i \<noteq> IDLE" using assms by simp
  ultimately obtain m where m: "i \<le> m" "m < n" "T ! m = RELEASED"
    using chain_enter[where T=T and X=IDLE and Y=RELEASED and a=i and k=n]
      chain n assms(4) tableStep_into_IDLE
    by (metis less_trans)
  have "m \<noteq> i" using m assms by auto
  with m n show ?thesis by (intro exI[of _ m] exI[of _ n]) auto
qed

lemma keyStates_three:
  "idx < length (key s) \<Longrightarrow> kstate (key s ! idx) = IDLE \<Longrightarrow>
   keyStates idx [True, False, True] s = [IDLE, PRESSED, RELEASED, IDLE] \<or>
   keyStates idx [True, False, True] s = [IDLE, PRESSED, HOLD, HOLD]"
  by (simp add: nextKeyState_kstate nextKeyState_length)

text \<open>
  C1. \<open>nextKeyState\<close> follows the transition table of the specification for every state
  and every input: the new state of the slot is the table's, an idle key that closes
  anchors the hold timer to the clock reading of this step, and an idle key that stays
  open keeps \<open>stateChanged\<close> clear. From IDLE, the inputs closed, open, closed lead
  through PRESSED to RELEASED and IDLE, or to HOLD when the hold interval has run out,
  and on every path a key that leaves PRESSED and is in PRESSED again later has been in
  RELEASED and then in IDLE in between.
\<close>

theorem nextKeyState_follows_table:
  assumes "idx < KEYPAD_LIST_MAX s"
  shows "kstate (key (nextKeyState idx closed s) ! idx) =
           table_next (kstate (key s ! idx)) closed (clock s (ticks s) - holdTimer s) (holdTime s)
       \<and> (kstate (key s ! idx) = IDLE \<and> closed
            \<longrightarrow> holdTimer (nextKeyState idx closed s) = clock s (ticks s))
       \<and> (kstate (key s ! idx) = IDLE \<and> \<not> closed
            \<longrightarrow> \<not> stateChanged (key (nextKeyState idx closed s) ! idx))
       \<and> (kstate (key s ! idx) = IDLE
            \<longrightarrow> keyStates idx [True, False, True] s = [IDLE, PRESSED, RELEASED, IDLE]
              \<or> keyStates idx [True, False, True] s = [IDLE, PRESSED, HOLD, HOLD])
       \<and> (\<forall>i j k. i < j \<and> j < k \<and> k \<le> length inputs
              \<and> keyStates idx inputs s ! i = PRESSED
              \<and> keyStates idx inputs s ! j \<noteq> PRESSED
              \<and> keyStates idx inputs s ! k = PRESSED
            \<longrightarrow> (\<exists>m n. i < m \<and> m < n \<and> n < k
                   \<and> keyStates idx inputs s ! m = RELEASED
                   \<and> keyStates idx inputs s ! n = IDLE))"
proof -
  have len: "idx < length (key s)" using assms by (simp add: KEYPAD_LIST_MAX_def)
  have path: "\<exists>m n. i < m \<and> m < n \<and> n < k
                   \<and> keyStates idx inputs s ! m = RELEASED
                   \<and> keyStates idx inputs s ! n = IDLE"
    if "i < j" "j < k" "k \<le> length inputs" "keyStates idx inputs s ! i = PRESSED"
       "keyStates idx inputs s ! j \<noteq> PRESSED" "keyStates idx inputs s ! k = PRESSED"
    for i j k
  proof (rule chain_released[where j=j])
    show "k < length (keyStates idx inputs s)" using that by (simp add: keyStates_length)
  qed (use that len keyStates_chain in auto)
  show ?thesis
    using len keyStates_three[OF len] path
    by (simp add: nextKeyState_kstate nextKeyState_holdTimer nextKeyState_stateChanged) blast
qed

theorem nextKeyState_follows_table_witness:
  "0 < KEYPAD_LIST_MAX demo
   \<and> kstate (key (nextKeyState 0 True demo) ! 0) = PRESSED
   \<and> holdTimer (nextKeyState 0 True demo) = 0
   \<and> keyStates 0 [True, False, True] demo = [IDLE, PRESSED, RELEASED, IDLE]
   \<and> keyStates 0 [True, False, False, True] demo = [IDLE, PRESSED, RELEASED, IDLE, PRESSED]"
proof -
  have h: "0 < KEYPAD_LIST_MAX demo" by (simp add: KEYPAD_LIST_MAX_def demo_def)
  have "keyStates 0 [True, False, True] demo = [IDLE, PRESSED, RELEASED, IDLE]" by code_simp
  moreover have "keyStates 0 [True, False, False, True] demo
                 = [IDLE, PRESSED, RELEASED, IDLE, PRESSED]" by code_simp
  moreover have "kstate (key demo ! 0) = IDLE" by code_simp
  moreover have "clock demo (ticks demo) = 0" by code_simp
  ultimately show ?thesis
    using h nextKeyState_follows_table[OF h, of True "[True, False, False, True]"] by simp
qed

text \<open>
  C9. A step of \<open>nextKeyState\<close> that changes the state of the key sets \<open>stateChanged\<close>
  and calls the registered listeners, the character-only one first and then the one
  that takes the character and the new state; a step that leaves the state as it was
  clears the flag and calls nothing. \<open>transitionTo\<close> itself writes the state, sets the
  flag and makes the same calls. A listener that is not registered is not called.
\<close>

theorem transitions_fire_listeners:
  assumes "idx < KEYPAD_LIST_MAX s"
  shows "(kstate (key (nextKeyState idx closed s) ! idx) \<noteq> kstate (key s ! idx)
            \<longrightarrow> stateChanged (key (nextKeyState idx closed s) ! idx)
              \<and> trace (nextKeyState idx closed s) =
                  trace s @ listenerCalls s (kchar (key s ! idx))
                              (kstate (key (nextKeyState idx closed s) ! idx)))
       \<and> (kstate (key (nextKeyState idx closed s) ! idx) = kstate (key s ! idx)
            \<longrightarrow> \<not> stateChanged (key (nextKeyState idx closed s) ! idx)
              \<and> trace (nextKeyState idx closed s) = trace s)
       \<and> kstate (key (transitionTo idx st s) ! idx) = st
       \<and> stateChanged (key (transitionTo idx st s) ! idx)
       \<and> trace (transitionTo idx st s) = trace s @ listenerCalls s (kchar (key s ! idx)) st
       \<and> listenerCalls (s\<lparr>keypadEventListener := Some f, keypadStatedEventListener := Some g\<rparr>) c st
            = [EventListener f c, StatedEventListener g c st]
       \<and> listenerCalls (s\<lparr>keypadEventListener := None, keypadStatedEventListener := Some g\<rparr>) c st
            = [StatedEventListener g c st]
       \<and> listenerCalls (s\<lparr>keypadEventListener := Some f, keypadStatedEventListener := None\<rparr>) c st
            = [EventListener f c]
       \<and> listenerCalls (s\<lparr>keypadEventListener := None, keypadStatedEventListener := None\<rparr>) c st
            = []"
proof -
  have len: "idx < length (key s)" using assms by (simp add: KEYPAD_LIST_MAX_def)
  show ?thesis
    using nextKeyState_trace[OF len, of closed] nextKeyState_stateChanged[OF len, of closed]
    by (simp add: transitionTo_eq[OF len] len listenerCalls_def)
qed

theorem transitions_fire_listeners_witness:
  "0 < KEYPAD_LIST_MAX demo
   \<and> kstate (key (nextKeyState 0 True demo) ! 0) = PRESSED
   \<and> kstate (key demo ! 0) = IDLE
   \<and> stateChanged (key (nextKeyState 0 True demo) ! 0)
   \<and> trace (nextKeyState 0 True demo)
       = [EventListener 1 KEYPAD_NO_KEY, StatedEventListener 2 KEYPAD_NO_KEY PRESSED]
   \<and> kstate (key (nextKeyState 0 False demo) ! 0) = IDLE
   \<and> \<not> stateChanged (key (nextKeyState 0 False demo) ! 0)
   \<and> trace (nextKeyState 0 False demo) = []"
proof -
  have h: "0 < KEYPAD_LIST_MAX demo" by (simp add: KEYPAD_LIST_MAX_def demo_def)
  have "kstate (key (nextKeyState 0 True demo) ! 0) = PRESSED"
       "kstate (key (nextKeyState 0 False demo) ! 0) = IDLE"
       "kstate (key demo ! 0) = IDLE" "kchar (key demo ! 0) = KEYPAD_NO_KEY"
       "trace demo = []"
       "listenerCalls demo KEYPAD_NO_KEY PRESSED
          = [EventListener 1 KEYPAD_NO_KEY, StatedEventListener 2 KEYPAD_NO_KEY PRESSED]"
    by code_simp+
  then show ?thesis
    using h transitions_fire_listeners[OF h, of True] transitions_fire_listeners[OF h, of False]
    by simp
qed

text \<open>
  C2, as the code has it. There is one hold-timer anchor for the whole keypad. A key in
  PRESSED goes to HOLD in a step exactly when the clock reading of that step is more
  than the hold interval past the anchor (in wrap-around subtraction), whatever its raw
  input; and the anchor is set to the clock reading whenever any key goes from IDLE to
  PRESSED, and is left alone by every other step.
\<close>

theorem hold_anchor_is_shared:
  assumes "idx < KEYPAD_LIST_MAX s"
  shows "(kstate (key s ! idx) = PRESSED
            \<longrightarrow> (kstate (key (nextKeyState idx closed s) ! idx) = HOLD)
                = (clock s (ticks s) - holdTimer s > holdTime s))
       \<and> holdTimer (nextKeyState idx closed s) =
           (if kstate (key s ! idx) = IDLE \<and> closed then clock s (ticks s) else holdTimer s)"
proof -
  have len: "idx < length (key s)" using assms by (simp add: KEYPAD_LIST_MAX_def)
  show ?thesis
    by (simp add: nextKeyState_kstate[OF len] nextKeyState_holdTimer[OF len])
qed

theorem hold_anchor_is_shared_witness:
  "0 < KEYPAD_LIST_MAX pressed_demo
   \<and> kstate (key pressed_demo ! 0) = PRESSED
   \<and> holdTimer pressed_demo = 400
   \<and> kstate (key (nextKeyState 0 True (pressed_demo\<lparr>clock := (\<lambda>n. 600)\<rparr>)) ! 0) \<noteq> HOLD
   \<and> kstate (key (nextKeyState 0 True (pressed_demo\<lparr>clock := (\<lambda>n. 901)\<rparr>)) ! 0) = HOLD"
proof -
  have h: "0 < KEYPAD_LIST_MAX pressed_demo" by code_simp
  have "kstate (key pressed_demo ! 0) = PRESSED" "holdTimer pressed_demo = 400"
       "holdTime pressed_demo = 500"
    by code_simp+
  then show ?thesis
    using h hold_anchor_is_shared[of 0 "pressed_demo\<lparr>clock := (\<lambda>n. 600)\<rparr>" True]
      hold_anchor_is_shared[of 0 "pressed_demo\<lparr>clock := (\<lambda>n. 901)\<rparr>" True]
    by (simp add: KEYPAD_LIST_MAX_def)
qed

text \<open>
  C2 as stated fails. Key 0 is pressed at time 0 and stays closed; the hold interval is
  500. When key 1 is pressed at time 400, key 0 is still in PRESSED at time 600, after
  600 ms of closure; when no other key is pressed, the same key 0 is in HOLD at time 600.
\<close>

theorem hold_anchor_per_key_counterexample:
  "kstate (key (update_at 600 [3, 0] (update_at 400 [3, 0] (update_at 0 [1, 0] demo))) ! 0)
     = PRESSED
   \<and> kstate (key (update_at 600 [1, 0] (update_at 400 [1, 0] (update_at 0 [1, 0] demo))) ! 0)
     = HOLD
   \<and> holdTime demo = 500"
  by code_simp

section \<open>Configuration and the poll gate\<close>

lemma uint_le_1: "(d::uint) \<le> 1 \<Longrightarrow> d = 0 \<or> d = 1"
  by (metis word_less_1 order_le_less)

text \<open>
  C8. \<open>setDebounceTime d\<close> stores \<open>max d 1\<close> as the debounce interval and changes
  nothing else; there is no error value to return.
\<close>

theorem setDebounceTime_floor:
  "setDebounceTime d s = s\<lparr>debounceTime := max d 1\<rparr>"
  using uint_le_1[of d] by (auto simp: setDebounceTime_def max_def)

theorem setDebounceTime_floor_witness:
  "debounceTime (setDebounceTime 0 demo) = 1 \<and> debounceTime (setDebounceTime 25 demo) = 25"
  using setDebounceTime_floor[of 0 demo] setDebounceTime_floor[of 25 demo] by simp

lemma scanColumn_frame:
  "reads (scanColumn r c s) = Suc (reads s)"
  "sizeKpd (scanColumn r c s) = sizeKpd s"
  by (simp_all add: scanColumn_def readRow_def pin_read_def Let_def)

lemma fold_scanColumn_frame:
  "reads (fold (scanColumn r) cs s) = reads s + length cs
   \<and> sizeKpd (fold (scanColumn r) cs s) = sizeKpd s"
  by (induction cs arbitrary: s) (simp_all add: scanColumn_frame)

lemma scanRow_frame:
  "reads (scanRow r s) = reads s + unat (columns (sizeKpd s))"
  "sizeKpd (scanRow r s) = sizeKpd s"
  by (simp_all add: scanRow_def writeRowPre_def writeRowPost_def pin_write_def
      fold_scanColumn_frame)

lemma fold_scanRow_frame:
  "reads (fold scanRow rs s) = reads s + length rs * unat (columns (sizeKpd s))
   \<and> sizeKpd (fold scanRow rs s) = sizeKpd s"
  by (induction rs arbitrary: s) (simp_all add: scanRow_frame)

lemma scanKeys_reads:
  "reads (scanKeys s) = reads s + unat (rows (sizeKpd s)) * unat (columns (sizeKpd s))"
  by (simp add: scanKeys_def fold_scanRow_frame)

text \<open>
  C3, as the code has it. When the time since the recorded timestamp (in wrap-around
  subtraction) is strictly greater than the debounce interval, \<open>getKeys\<close> scans the grid
  (one pin read for every cell), updates the key list, records the clock reading taken
  after the update as the new timestamp and returns the update's flag. When it is less
  than or equal to the interval, \<open>getKeys\<close> returns false and leaves the keypad as it
  was, apart from having read the clock once.
\<close>

theorem getKeys_gate:
  "(debounceTime s < clock s (ticks s) - startTime s \<longrightarrow>
      fst (getKeys s) = fst (updateList (scanKeys (s\<lparr>ticks := Suc (ticks s)\<rparr>)))
    \<and> snd (getKeys s) =
        (let s3 = snd (updateList (scanKeys (s\<lparr>ticks := Suc (ticks s)\<rparr>)))
         in s3\<lparr>ticks := Suc (ticks s3), startTime := clock s3 (ticks s3)\<rparr>)
    \<and> reads (scanKeys (s\<lparr>ticks := Suc (ticks s)\<rparr>))
        = reads s + unat (rows (sizeKpd s)) * unat (columns (sizeKpd s)))
 \<and> (clock s (ticks s) - startTime s \<le> debounceTime s \<longrightarrow>
      getKeys s = (False, s\<lparr>ticks := Suc (ticks s)\<rparr>))"
  by (auto simp add: getKeys_def millis_def Let_def split_beta scanKeys_reads)

theorem getKeys_gate_witness:
  "debounceTime all_closed = 10
   \<and> fst (getKeys (all_closed\<lparr>clock := (\<lambda>n. 11)\<rparr>)) = True
   \<and> startTime (snd (getKeys (all_closed\<lparr>clock := (\<lambda>n. 11)\<rparr>))) = 11
   \<and> reads (scanKeys (all_closed\<lparr>clock := (\<lambda>n. 11), ticks := 1\<rparr>)) = 4
   \<and> getKeys (all_closed\<lparr>clock := (\<lambda>n. 10)\<rparr>)
       = (False, all_closed\<lparr>clock := (\<lambda>n. 10), ticks := 1\<rparr>)"
proof -
  have "debounceTime all_closed = 10" "startTime all_closed = 0" "ticks all_closed = 0"
       "reads all_closed = 0" "sizeKpd all_closed = \<lparr>rows = 2, columns = 2\<rparr>"
    by (simp_all add: all_closed_def demo_def)
  moreover have
    "fst (updateList (scanKeys (all_closed\<lparr>clock := (\<lambda>n. 11), ticks := 1\<rparr>))) = True"
    "startTime (snd (getKeys (all_closed\<lparr>clock := (\<lambda>n. 11)\<rparr>))) = 11"
    by code_simp+
  ultimately show ?thesis
    using getKeys_gate[of "all_closed\<lparr>clock := (\<lambda>n. 11)\<rparr>"]
          getKeys_gate[of "all_closed\<lparr>clock := (\<lambda>n. 10)\<rparr>"]
    by simp
qed

text \<open>
  C3 as stated fails when the elapsed time equals the interval. With every key closed,
  a debounce interval of 10 and 10 ms since the last scan, \<open>getKeys\<close> reads no pin,
  leaves the bitmap alone and returns false, although a scan and an update there would
  have returned true; at 11 ms it scans the four cells and returns true.
\<close>

theorem getKeys_at_interval_counterexample:
  "clock (all_closed\<lparr>clock := (\<lambda>n. 10)\<rparr>) 0 - startTime all_closed = debounceTime all_closed
   \<and> fst (getKeys (all_closed\<lparr>clock := (\<lambda>n. 10)\<rparr>)) = False
   \<and> reads (snd (getKeys (all_closed\<lparr>clock := (\<lambda>n. 10)\<rparr>))) = 0
   \<and> trace (snd (getKeys (all_closed\<lparr>clock := (\<lambda>n. 10)\<rparr>))) = []
   \<and> bitMap (snd (getKeys (all_closed\<lparr>clock := (\<lambda>n. 10)\<rparr>))) = [0, 0]
   \<and> fst (updateList (scanKeys (all_closed\<lparr>clock := (\<lambda>n. 10)\<rparr>))) = True
   \<and> fst (getKeys (all_closed\<lparr>clock := (\<lambda>n. 11)\<rparr>)) = True
   \<and> reads (snd (getKeys (all_closed\<lparr>clock := (\<lambda>n. 11)\<rparr>))) = 4"
  by code_simp

section \<open>Properties of the key list\<close>

lemma byte_of_nat:
  assumes "i < 128"
  shows "sint (word_of_nat i :: 8 word) = int i"
    and "unat (word_of_nat i :: 8 word) = i"
    and "(word_of_nat i :: 8 word) \<noteq> 0xFF"
proof -
  show u: "unat (word_of_nat i :: 8 word) = i"
    using assms by (simp add: unat_of_nat)
  show "sint (word_of_nat i :: 8 word) = int i"
    using assms by (simp add: signed_of_nat signed_take_bit_int_eq_self)
  have "unat (0xFF :: 8 word) = 255" by simp
  with u assms show "(word_of_nat i :: 8 word) \<noteq> 0xFF" by force
qed

lemma findInList_cases:
  assumes "KEYPAD_LIST_MAX s \<le> 128"
  shows "(findInList kc s = -1 \<and> (\<forall>i<length (key s). kcode (key s ! i) \<noteq> uint kc))
       \<or> (\<exists>i<length (key s). findInList kc s = int i \<and> kcode (key s ! i) = uint kc
              \<and> (\<forall>j<i. kcode (key s ! j) \<noteq> uint kc))"
proof (cases "List.find (\<lambda>i. kcode (key s ! i) = uint kc) [0..<KEYPAD_LIST_MAX s]")
  case None
  then have "\<forall>i<length (key s). kcode (key s ! i) \<noteq> uint kc"
    by (auto simp: find_None_iff KEYPAD_LIST_MAX_def)
  then show ?thesis using None by (simp add: findInList_def)
next
  case (Some i)
  then have i: "i < length (key s)" "kcode (key s ! i) = uint kc"
      "\<forall>j<i. kcode (key s ! j) \<noteq> uint kc"
    by (auto simp: find_Some_iff KEYPAD_LIST_MAX_def)
  then have "i < 128" using assms by (simp add: KEYPAD_LIST_MAX_def)
  then have "findInList kc s = int i" using Some by (simp add: findInList_def byte_of_nat)
  with i show ?thesis by blast
qed

lemma nextEmpty_cases:
  assumes "KEYPAD_LIST_MAX s \<le> 128"
  shows "(nextEmpty s = 0xFF \<and> (\<forall>i<length (key s). kchar (key s ! i) \<noteq> KEYPAD_NO_KEY))
       \<or> (nextEmpty s \<noteq> 0xFF \<and> unat (nextEmpty s) < length (key s)
              \<and> kchar (key s ! unat (nextEmpty s)) = KEYPAD_NO_KEY
              \<and> (\<forall>j<unat (nextEmpty s). kchar (key s ! j) \<noteq> KEYPAD_NO_KEY))"
proof (cases "List.find (\<lambda>i. kchar (key s ! i) = KEYPAD_NO_KEY) [0..<KEYPAD_LIST_MAX s]")
  case None
  then have "\<forall>i<length (key s). kchar (key s ! i) \<noteq> KEYPAD_NO_KEY"
    by (auto simp: find_None_iff KEYPAD_LIST_MAX_def)
  then show ?thesis using None by (simp add: nextEmpty_def)
next
  case (Some i)
  then have i: "i < length (key s)" "kchar (key s ! i) = KEYPAD_NO_KEY"
      "\<forall>j<i. kchar (key s ! j) \<noteq> KEYPAD_NO_KEY"
    by (auto simp: find_Some_iff KEYPAD_LIST_MAX_def)
  then have "i < 128" using assms by (simp add: KEYPAD_LIST_MAX_def)
  moreover have "nextEmpty s = word_of_nat i" using Some by (simp add: nextEmpty_def)
  ultimately show ?thesis using i by (simp add: byte_of_nat)
qed

text \<open>\<open>nextEmpty\<close> depends on the characters in the list only.\<close>

lemma nextEmpty_cong:
  "map kchar (key s') = map kchar (key s) \<Longrightarrow> nextEmpty s' = nextEmpty s"
proof -
  assume m: "map kchar (key s') = map kchar (key s)"
  then have l: "length (key s') = length (key s)" by (metis length_map)
  have "\<And>i. i < length (key s) \<Longrightarrow> kchar (key s' ! i) = kchar (key s ! i)"
    using m l by (metis nth_map)
  then have "List.find (\<lambda>i. kchar (key s' ! i) = KEYPAD_NO_KEY) [0..<length (key s)]
           = List.find (\<lambda>i. kchar (key s ! i) = KEYPAD_NO_KEY) [0..<length (key s)]"
    by (intro find_cong) auto
  then show ?thesis by (simp add: nextEmpty_def KEYPAD_LIST_MAX_def l)
qed

lemma deleteIdle_eq:
  "deleteIdle i (s, e) =
     (s\<lparr>key := (key s)[i := clearIdle (key s ! i)]\<rparr>,
      if e = 0xFF \<and> kchar (((key s)[i := clearIdle (key s ! i)]) ! i) = KEYPAD_NO_KEY
      then word_of_nat i else e)"
  by (auto simp add: deleteIdle_def clearIdle_def Let_def)

lemma find_append:
  "List.find P (xs @ ys) = (case List.find P xs of None \<Rightarrow> List.find P ys | Some x \<Rightarrow> Some x)"
  by (induction xs) auto

lemma deleteIdle_prefix:
  assumes "length (key s) \<le> 128"
  shows "n \<le> length (key s) \<Longrightarrow>
     \<exists>K. fold deleteIdle [0..<n] (s, 0xFF) =
            (s\<lparr>key := K\<rparr>,
             case List.find (\<lambda>i. kchar (clearIdle (key s ! i)) = KEYPAD_NO_KEY) [0..<n] of
               Some i \<Rightarrow> word_of_nat i | None \<Rightarrow> 0xFF)
        \<and> length K = length (key s)
        \<and> (\<forall>j<length (key s). K ! j = (if j < n then clearIdle (key s ! j) else key s ! j))"
proof (induction n)
  case 0
  show ?case by (intro exI[of _ "key s"]) simp
next
  case (Suc n)
  then obtain K where K: "fold deleteIdle [0..<n] (s, 0xFF) =
            (s\<lparr>key := K\<rparr>,
             case List.find (\<lambda>i. kchar (clearIdle (key s ! i)) = KEYPAD_NO_KEY) [0..<n] of
               Some i \<Rightarrow> word_of_nat i | None \<Rightarrow> 0xFF)"
     "length K = length (key s)"
     "\<forall>j<length (key s). K ! j = (if j < n then clearIdle (key s ! j) else key s ! j)"
    by auto
  let ?P = "\<lambda>i. kchar (clearIdle (key s ! i)) = KEYPAD_NO_KEY"
  have n: "n < length (key s)" "n < 128" using Suc.prems assms by simp_all
  have Kn: "K ! n = key s ! n" using K(3) n by simp
  have e: "(case List.find ?P [0..<n] of Some i \<Rightarrow> (word_of_nat i :: byte) | None \<Rightarrow> 0xFF) = 0xFF
           \<longleftrightarrow> List.find ?P [0..<n] = None"
  proof (cases "List.find ?P [0..<n]")
    case None then show ?thesis by simp
  next
    case (Some i)
    then have "i < n" by (auto simp: find_Some_iff)
    then have "i < 128" using n by simp
    then show ?thesis using Some by (simp add: byte_of_nat)
  qed
  show ?case
  proof (intro exI[of _ "K[n := clearIdle (key s ! n)]"] conjI)
    show "fold deleteIdle [0..<Suc n] (s, 0xFF) =
      (s\<lparr>key := K[n := clearIdle (key s ! n)]\<rparr>,
       case List.find ?P [0..<Suc n] of Some i \<Rightarrow> word_of_nat i | None \<Rightarrow> 0xFF)"
      using K(1,2) n Kn e
      by (cases "List.find ?P [0..<n]") (simp_all add: deleteIdle_eq find_append)
    show "length (K[n := clearIdle (key s ! n)]) = length (key s)" using K(2) by simp
    show "\<forall>j<length (key s). K[n := clearIdle (key s ! n)] ! j =
            (if j < Suc n then clearIdle (key s ! j) else key s ! j)"
      using K(2,3) by (auto simp: nth_list_update less_Suc_eq)
  qed
qed

lemma deleteIdle_fold:
  assumes "KEYPAD_LIST_MAX s \<le> 128"
  shows "fold deleteIdle [0..<KEYPAD_LIST_MAX s] (s, 0xFF) =
           (s\<lparr>key := map clearIdle (key s)\<rparr>, nextEmpty (s\<lparr>key := map clearIdle (key s)\<rparr>))"
proof -
  let ?P = "\<lambda>i. kchar (clearIdle (key s ! i)) = KEYPAD_NO_KEY"
  from deleteIdle_prefix[of s "length (key s)"] assms
  obtain K where K: "fold deleteIdle [0..<length (key s)] (s, 0xFF) =
            (s\<lparr>key := K\<rparr>,
             case List.find ?P [0..<length (key s)] of
               Some i \<Rightarrow> word_of_nat i | None \<Rightarrow> 0xFF)"
     "length K = length (key s)"
     "\<forall>j<length (key s). K ! j = clearIdle (key s ! j)"
    by (auto simp: KEYPAD_LIST_MAX_def)
  have "K = map clearIdle (key s)"
    using K(2,3) by (intro nth_equalityI) simp_all
  moreover have "List.find ?P [0..<length (key s)]
      = List.find (\<lambda>i. kchar (map clearIdle (key s) ! i) = KEYPAD_NO_KEY) [0..<length (key s)]"
    by (intro find_cong) auto
  ultimately show ?thesis using K(1)
    by (simp add: nextEmpty_def KEYPAD_LIST_MAX_def)
qed

lemma cellCode_less:
  "r < unat (rows (sizeKpd s)) \<Longrightarrow> c < unat (columns (sizeKpd s)) \<Longrightarrow> cellCode s r c < nCells s"
proof -
  assume r: "r < unat (rows (sizeKpd s))" and c: "c < unat (columns (sizeKpd s))"
  have "r * unat (columns (sizeKpd s)) + c < Suc r * unat (columns (sizeKpd s))"
    using c by simp
  also have "\<dots> \<le> unat (rows (sizeKpd s)) * unat (columns (sizeKpd s))"
    using r by (intro mult_le_mono1) simp
  finally show ?thesis by (simp add: cellCode_def nCells_def)
qed

lemma keyCode_eq:
  assumes "cellCode s r c < 256"
  shows "(word_of_nat r * columns (sizeKpd s) + word_of_nat c :: byte) = word_of_nat (cellCode s r c)"
    and "unat (word_of_nat (cellCode s r c) :: byte) = cellCode s r c"
    and "uint (word_of_nat (cellCode s r c) :: byte) = int (cellCode s r c)"
proof -
  show "(word_of_nat r * columns (sizeKpd s) + word_of_nat c :: byte) = word_of_nat (cellCode s r c)"
    by (simp add: cellCode_def)
  show u: "unat (word_of_nat (cellCode s r c) :: byte) = cellCode s r c"
    using assms by (simp add: unat_of_nat)
  show "uint (word_of_nat (cellCode s r c) :: byte) = int (cellCode s r c)"
    using u by (metis uint_nat)
qed

lemma findInList_first:
  assumes "KEYPAD_LIST_MAX s \<le> 128" "i < length (key s)" "kcode (key s ! i) = uint kc"
    "\<forall>j<i. kcode (key s ! j) \<noteq> uint kc"
  shows "findInList kc s = int i"
proof -
  have "List.find (\<lambda>i. kcode (key s ! i) = uint kc) [0..<KEYPAD_LIST_MAX s] = Some i"
    using assms by (auto simp: find_Some_iff KEYPAD_LIST_MAX_def)
  moreover have "i < 128" using assms by (simp add: KEYPAD_LIST_MAX_def)
  ultimately show ?thesis by (simp add: findInList_def byte_of_nat)
qed

lemma findInList_none:
  assumes "\<forall>i<length (key s). kcode (key s ! i) \<noteq> uint kc"
  shows "findInList kc s = -1"
proof -
  have "List.find (\<lambda>i. kcode (key s ! i) = uint kc) [0..<KEYPAD_LIST_MAX s] = None"
    using assms by (auto simp: find_None_iff KEYPAD_LIST_MAX_def)
  then show ?thesis by (simp add: findInList_def)
qed

lemma addKey_found:
  assumes "KEYPAD_LIST_MAX s \<le> 128" "cellCode s r c < 256"
    "i < length (key s)" "kcode (key s ! i) = int (cellCode s r c)"
    "\<forall>j<i. kcode (key s ! j) \<noteq> int (cellCode s r c)"
  shows "addKey r c (s, e) = (nextKeyState i (bitRead (bitMap s ! r) c) s, e)"
proof -
  have "findInList (word_of_nat (cellCode s r c)) s = int i"
    using assms by (intro findInList_first) (simp_all add: keyCode_eq)
  then show ?thesis
    using assms(2) by (simp add: addKey_def Let_def keyCode_eq)
qed

lemma addKey_new:
  assumes "cellCode s r c < 256"
    "\<forall>i<length (key s). kcode (key s ! i) \<noteq> int (cellCode s r c)"
    "bitRead (bitMap s ! r) c" "e \<noteq> 0xFF"
  shows "addKey r c (s, e) =
     (let s2 = nextKeyState (unat e) True
                 (s\<lparr>key := (key s)[unat e := (key s ! unat e)\<lparr>kchar := keymap s (cellCode s r c),
                                                               kcode := int (cellCode s r c),
                                                               kstate := IDLE\<rparr>]\<rparr>)
      in (s2, nextEmpty s2))"
proof -
  have "findInList (word_of_nat (cellCode s r c)) s = -1"
    using assms by (intro findInList_none) (simp_all add: keyCode_eq)
  then show ?thesis
    using assms by (simp add: addKey_def Let_def keyCode_eq)
qed

lemma addKey_dropped:
  assumes "cellCode s r c < 256"
    "\<forall>i<length (key s). kcode (key s ! i) \<noteq> int (cellCode s r c)"
    "\<not> (bitRead (bitMap s ! r) c \<and> e \<noteq> 0xFF)"
  shows "addKey r c (s, e) = (s, e)"
proof -
  have "findInList (word_of_nat (cellCode s r c)) s = -1"
    using assms by (intro findInList_none) (simp_all add: keyCode_eq)
  then show ?thesis
    using assms by (auto simp add: addKey_def Let_def keyCode_eq)
qed

lemma Key_all_fields:
  "(k::Key)\<lparr>kchar := a, kcode := b, kstate := c, stateChanged := d\<rparr>
     = \<lparr>kchar = a, kcode = b, kstate = c, stateChanged = d\<rparr>"
  by (cases k) simp

lemma allocate_key:
  assumes "i < length (key s)"
  shows "key (nextKeyState i True
                 (s\<lparr>key := (key s)[i := (key s ! i)\<lparr>kchar := keymap s k, kcode := int k,
                                                      kstate := IDLE\<rparr>]\<rparr>))
         = (key s)[i := newKey s k]"
  using assms by (simp add: nextKeyState_eq Let_def newKey_def Key_all_fields)

lemma nextKeyState_static:
  assumes "i < length (key s)"
  shows "sizeKpd (nextKeyState i b s) = sizeKpd s" "keymap (nextKeyState i b s) = keymap s"
    "bitMap (nextKeyState i b s) = bitMap s"
  using assms by (simp_all add: nextKeyState_eq Let_def)

lemma nextKeyState_key:
  assumes "i < length (key s)"
  shows "key (nextKeyState i b s) =
     (key s)[i := (key s ! i)\<lparr>kstate := kstate (key (nextKeyState i b s) ! i),
                              stateChanged := stateChanged (key (nextKeyState i b s) ! i)\<rparr>]"
  using assms by (simp add: nextKeyState_eq Let_def)

lemma geometry_ok_cong:
  "geometry_ok s \<Longrightarrow> length (key s') = length (key s) \<Longrightarrow> sizeKpd s' = sizeKpd s \<Longrightarrow>
   keymap s' = keymap s \<Longrightarrow> length (bitMap s') = length (bitMap s) \<Longrightarrow> geometry_ok s'"
  by (simp add: geometry_ok_def nCells_def KEYPAD_LIST_MAX_def)

lemma registry_ok_touch:
  assumes "registry_ok s" "i < length (key s)" "kcode (key s ! i) \<noteq> -1"
    "key s' = (key s)[i := (key s ! i)\<lparr>kstate := st, stateChanged := ch\<rparr>]"
    "sizeKpd s' = sizeKpd s"
  shows "registry_ok s'"
proof -
  have n: "nCells s' = nCells s" using assms(5) by (simp add: nCells_def)
  have len: "length (key s') = length (key s)" using assms(4) by simp
  have code: "kcode (key s' ! j) = kcode (key s ! j)" if "j < length (key s)" for j
    using that assms(4) by (cases "j = i") simp_all
  have slot: "slot_ok (nCells s) (key s' ! j)" if "j < length (key s)" for j
  proof (cases "j = i")
    case True
    have "slot_ok (nCells s) (key s ! i)" using assms(1,2) by (simp add: registry_ok_def)
    then show ?thesis using True assms(2,3,4) by (auto simp: slot_ok_def split: if_splits)
  next
    case False
    then show ?thesis using that assms(1,4) by (simp add: registry_ok_def)
  qed
  show ?thesis
    unfolding registry_ok_def n len
    using slot code assms(1) by (simp add: registry_ok_def)
qed

lemma registry_ok_alloc:
  assumes "registry_ok s" "e < length (key s)"
    "\<forall>i<length (key s). kcode (key s ! i) \<noteq> int k" "k < nCells s"
    "keymap s k \<noteq> KEYPAD_NO_KEY"
    "key s' = (key s)[e := newKey s k]" "sizeKpd s' = sizeKpd s"
  shows "registry_ok s'"
proof -
  have n: "nCells s' = nCells s" using assms(7) by (simp add: nCells_def)
  have len: "length (key s') = length (key s)" using assms(6) by simp
  have slot: "slot_ok (nCells s) (key s' ! j)" if "j < length (key s)" for j
  proof (cases "j = e")
    case True
    then show ?thesis using assms(2,4,5,6) by (simp add: slot_ok_def newKey_def)
  next
    case False
    then show ?thesis using that assms(1,6) by (simp add: registry_ok_def)
  qed
  have uniq: "kcode (key s' ! i) = -1 \<or> j = i"
    if "i < length (key s)" "j < length (key s)" "kcode (key s' ! j) = kcode (key s' ! i)" for i j
  proof (cases "i = e")
    case ie: True
    show ?thesis
    proof (cases "j = e")
      case True then show ?thesis using ie by simp
    next
      case False
      then have "kcode (key s' ! j) = kcode (key s ! j)" using assms(6) by simp
      moreover have "kcode (key s' ! i) = int k" using ie assms(2,6) by (simp add: newKey_def)
      ultimately show ?thesis using that assms(3) by auto
    qed
  next
    case ie: False
    then have ci: "kcode (key s' ! i) = kcode (key s ! i)" using assms(6) by simp
    show ?thesis
    proof (cases "j = e")
      case True
      then have "kcode (key s' ! j) = int k" using assms(2,6) by (simp add: newKey_def)
      then show ?thesis using that ci assms(3) by auto
    next
      case False
      then have "kcode (key s' ! j) = kcode (key s ! j)" using assms(6) by simp
      then show ?thesis using that ci assms(1) by (auto simp: registry_ok_def)
    qed
  qed
  show ?thesis
    unfolding registry_ok_def n len using slot uniq by blast
qed

lemma registry_ok_code_char:
  "registry_ok s \<Longrightarrow> i < length (key s) \<Longrightarrow>
   (kcode (key s ! i) = -1) = (kchar (key s ! i) = KEYPAD_NO_KEY)"
  by (auto simp: registry_ok_def slot_ok_def split: if_splits)

lemma registry_ok_first:
  assumes "registry_ok s" "i < length (key s)" "kcode (key s ! i) = int k"
  shows "\<forall>j<i. kcode (key s ! j) \<noteq> int k"
proof (intro allI impI notI)
  fix j assume j: "j < i" "kcode (key s ! j) = int k"
  then have "j < length (key s)" using assms(2) by simp
  moreover have "\<forall>j<length (key s). kcode (key s ! j) = kcode (key s ! i)
              \<longrightarrow> kcode (key s ! i) = -1 \<or> j = i"
    using assms(1,2) unfolding registry_ok_def by blast
  ultimately have "kcode (key s ! i) = -1 \<or> j = i" using j(2) assms(3) by simp
  with j assms(3) show False by auto
qed

text \<open>One iteration of the loop over the cells, when the invariant holds before it.\<close>

lemma addKey_step:
  assumes inv: "scan_inv (s, e)"
    and rc: "r < unat (rows (sizeKpd s))" "c < unat (columns (sizeKpd s))"
  obtains
    (found) i where "i < length (key s)" "kcode (key s ! i) = int (cellCode s r c)"
      "addKey r c (s, e) = (nextKeyState i (bitRead (bitMap s ! r) c) s, e)"
  | (new) s' where "\<forall>i<length (key s). kcode (key s ! i) \<noteq> int (cellCode s r c)"
      "bitRead (bitMap s ! r) c" "e \<noteq> 0xFF" "unat e < length (key s)"
      "kchar (key s ! unat e) = KEYPAD_NO_KEY"
      "addKey r c (s, e) = (s', nextEmpty s')" "key s' = (key s)[unat e := newKey s (cellCode s r c)]"
      "sizeKpd s' = sizeKpd s" "keymap s' = keymap s" "bitMap s' = bitMap s"
  | (dropped) "\<forall>i<length (key s). kcode (key s ! i) \<noteq> int (cellCode s r c)"
      "\<not> (bitRead (bitMap s ! r) c \<and> e \<noteq> 0xFF)" "addKey r c (s, e) = (s, e)"
proof -
  have g: "geometry_ok s" and ro: "registry_ok s" and e: "e = nextEmpty s"
    using inv by (simp_all add: scan_inv_def)
  have lm: "KEYPAD_LIST_MAX s \<le> 128" and k: "cellCode s r c < 256"
    using g cellCode_less[OF rc] by (simp_all add: geometry_ok_def)
  show thesis
  proof (cases "\<exists>i<length (key s). kcode (key s ! i) = int (cellCode s r c)")
    case True
    then obtain i where i: "i < length (key s)" "kcode (key s ! i) = int (cellCode s r c)"
      by blast
    show thesis
      using i addKey_found[OF lm k i registry_ok_first[OF ro i]] by (rule found)
  next
    case False
    then have none: "\<forall>i<length (key s). kcode (key s ! i) \<noteq> int (cellCode s r c)" by blast
    show thesis
    proof (cases "bitRead (bitMap s ! r) c \<and> e \<noteq> 0xFF")
      case False
      show thesis using none False addKey_dropped[OF k none False] by (rule dropped)
    next
      case True
      with e nextEmpty_cases[of s] lm
      have ue: "unat e < length (key s)" "kchar (key s ! unat e) = KEYPAD_NO_KEY"
        by auto
      let ?s1 = "s\<lparr>key := (key s)[unat e := (key s ! unat e)\<lparr>kchar := keymap s (cellCode s r c),
                                   kcode := int (cellCode s r c), kstate := IDLE\<rparr>]\<rparr>"
      let ?s2 = "nextKeyState (unat e) True ?s1"
      have a: "addKey r c (s, e) = (?s2, nextEmpty ?s2)"
        using addKey_new[OF k none] True by (simp add: Let_def)
      have l1: "unat e < length (key ?s1)" using ue by simp
      have "key ?s2 = (key s)[unat e := newKey s (cellCode s r c)]"
        using allocate_key[OF ue(1), of "cellCode s r c"] by simp
      moreover have "sizeKpd ?s2 = sizeKpd s" "keymap ?s2 = keymap s" "bitMap ?s2 = bitMap s"
        using nextKeyState_static[OF l1, of True] by simp_all
      ultimately show thesis using none True ue a by (intro new[of ?s2]) simp_all
    qed
  qed
qed

lemma scan_inv_nextKeyState:
  assumes "scan_inv (s, e)" "i < length (key s)" "kcode (key s ! i) \<noteq> -1"
  shows "scan_inv (nextKeyState i b s, e)"
proof -
  let ?s' = "nextKeyState i b s"
  have g: "geometry_ok s" and ro: "registry_ok s" and e: "e = nextEmpty s"
    using assms(1) by (simp_all add: scan_inv_def)
  have k: "key ?s' = (key s)[i := (key s ! i)\<lparr>kstate := kstate (key ?s' ! i),
                              stateChanged := stateChanged (key ?s' ! i)\<rparr>]"
    by (rule nextKeyState_key[OF assms(2)])
  have st: "sizeKpd ?s' = sizeKpd s" "keymap ?s' = keymap s" "bitMap ?s' = bitMap s"
    using nextKeyState_static[OF assms(2)] by simp_all
  have "geometry_ok ?s'"
    by (rule geometry_ok_cong[OF g]) (simp_all add: st nextKeyState_length[OF assms(2)])
  moreover have "registry_ok ?s'"
    using ro assms(2,3) k st(1) by (rule registry_ok_touch)
  moreover have "map kchar (key ?s') = map kchar (key s)"
    by (subst k) (simp add: map_update assms(2) list_update_same_conv)
  then have "nextEmpty ?s' = nextEmpty s" by (rule nextEmpty_cong)
  ultimately show ?thesis using e by (simp add: scan_inv_def)
qed

lemma addKey_inv:
  assumes inv: "scan_inv (s, e)"
    and rc: "r < unat (rows (sizeKpd s))" "c < unat (columns (sizeKpd s))"
  shows "scan_inv (addKey r c (s, e))
       \<and> sizeKpd (fst (addKey r c (s, e))) = sizeKpd s
       \<and> keymap (fst (addKey r c (s, e))) = keymap s
       \<and> bitMap (fst (addKey r c (s, e))) = bitMap s
       \<and> length (key (fst (addKey r c (s, e)))) = length (key s)"
  using inv rc
proof (cases rule: addKey_step)
  case (found i)
  have "kcode (key s ! i) \<noteq> -1" using found(2) by simp
  then show ?thesis
    using scan_inv_nextKeyState[OF inv found(1), of "bitRead (bitMap s ! r) c"]
    by (simp add: found(3) nextKeyState_static[OF found(1)] nextKeyState_length[OF found(1)])
next
  case (new s')
  have g: "geometry_ok s" and ro: "registry_ok s"
    using inv by (simp_all add: scan_inv_def)
  have k: "cellCode s r c < nCells s" by (rule cellCode_less[OF rc])
  then have km: "keymap s (cellCode s r c) \<noteq> KEYPAD_NO_KEY"
    using g by (simp add: geometry_ok_def list_all_iff)
  have "geometry_ok s'"
    by (rule geometry_ok_cong[OF g]) (simp_all add: new(7,8,9,10))
  moreover have "registry_ok s'"
    using ro new(4,1) k km new(7,8) by (rule registry_ok_alloc)
  ultimately show ?thesis by (simp add: scan_inv_def new(6,7,8,9,10))
next
  case dropped
  show ?thesis using inv by (simp add: dropped(3))
qed

lemma fold_nested:
  "fold (\<lambda>r. fold (f r) cs) rs a = fold (\<lambda>(r, c). f r c) (List.product rs cs) a"
proof (induction rs arbitrary: a)
  case Nil
  show ?case by simp
next
  case (Cons r rs)
  have "fold (\<lambda>(r, c). f r c) (map (Pair r) cs) a = fold (f r) cs a"
    by (simp add: fold_map comp_def)
  then show ?case using Cons by simp
qed

lemma addKeys_cells: "addKeys (s, e) = fold (\<lambda>(r, c). addKey r c) (cells s) (s, e)"
  by (simp add: addKeys_def cells_def fold_nested)

lemma cells_in_grid: "x \<in> set (cells s) \<Longrightarrow> in_grid s x"
  by (auto simp: cells_def in_grid_def)

lemma in_grid_cong: "sizeKpd s' = sizeKpd s \<Longrightarrow> in_grid s' = in_grid s"
  by (simp add: in_grid_def fun_eq_iff)

lemma codeOf_cong: "sizeKpd s' = sizeKpd s \<Longrightarrow> codeOf s' = codeOf s"
  by (simp add: codeOf_def cellCode_def fun_eq_iff)

lemma cellClosed_cong: "bitMap s' = bitMap s \<Longrightarrow> cellClosed s' = cellClosed s"
  by (simp add: cellClosed_def fun_eq_iff)

lemma static_refl: "static s s" by (simp add: static_def)

lemma static_trans: "static s s1 \<Longrightarrow> static s1 s2 \<Longrightarrow> static s s2"
  by (simp add: static_def)

lemma addKey_inv':
  assumes "scan_inv p" "in_grid (fst p) x"
  shows "scan_inv ((\<lambda>(r, c). addKey r c) x p) \<and> static (fst p) (fst ((\<lambda>(r, c). addKey r c) x p))"
proof -
  obtain s e where p: "p = (s, e)" by (cases p)
  obtain r c where x: "x = (r, c)" by (cases x)
  show ?thesis
    using addKey_inv[of s e r c] assms by (simp add: p x in_grid_def static_def)
qed

lemma addKey_fold_inv:
  "scan_inv p \<Longrightarrow> \<forall>x\<in>set xs. in_grid (fst p) x \<Longrightarrow>
   scan_inv (fold (\<lambda>(r, c). addKey r c) xs p)
   \<and> static (fst p) (fst (fold (\<lambda>(r, c). addKey r c) xs p))"
proof (induction xs arbitrary: p)
  case Nil
  then show ?case by (simp add: static_refl)
next
  case (Cons x xs)
  let ?p1 = "(\<lambda>(r, c). addKey r c) x p"
  have 1: "scan_inv ?p1" "static (fst p) (fst ?p1)"
    using addKey_inv'[of p x] Cons.prems by simp_all
  then have "in_grid (fst ?p1) = in_grid (fst p)"
    by (intro in_grid_cong) (simp add: static_def)
  with Cons.prems have "\<forall>x\<in>set xs. in_grid (fst ?p1) x" by simp
  from Cons.IH[OF 1(1) this] 1(2) show ?case
    by (auto intro: static_trans)
qed

lemma addKey_untouched:
  assumes inv: "scan_inv (s, e)" and g: "in_grid s x"
    and i: "i < length (key s)" "kcode (key s ! i) \<noteq> -1"
    and ne: "int (codeOf s x) \<noteq> kcode (key s ! i)"
  shows "key (fst ((\<lambda>(r, c). addKey r c) x (s, e))) ! i = key s ! i"
proof -
  obtain r c where x: "x = (r, c)" by (cases x)
  have rc: "r < unat (rows (sizeKpd s))" "c < unat (columns (sizeKpd s))"
    using g by (simp_all add: x in_grid_def)
  have ne': "int (cellCode s r c) \<noteq> kcode (key s ! i)" using ne by (simp add: x codeOf_def)
  have ro: "registry_ok s" using inv by (simp add: scan_inv_def)
  from inv rc show ?thesis
  proof (cases rule: addKey_step)
    case (found j)
    then have "i \<noteq> j" using ne' by auto
    then show ?thesis by (simp add: x found(3) nextKeyState_eq[OF found(1)] Let_def)
  next
    case (new s')
    have "kcode (key s ! unat e) = -1"
      using registry_ok_code_char[OF ro new(4)] new(5) by simp
    then have "unat e \<noteq> i" using i(2) by auto
    then show ?thesis by (simp add: x new(6,7))
  next
    case dropped
    then show ?thesis by (simp add: x)
  qed
qed

lemma addKey_fold_untouched:
  "scan_inv p \<Longrightarrow> \<forall>x\<in>set xs. in_grid (fst p) x \<Longrightarrow>
   i < length (key (fst p)) \<Longrightarrow> kcode (key (fst p) ! i) \<noteq> -1 \<Longrightarrow>
   \<forall>x\<in>set xs. int (codeOf (fst p) x) \<noteq> kcode (key (fst p) ! i) \<Longrightarrow>
   key (fst (fold (\<lambda>(r, c). addKey r c) xs p)) ! i = key (fst p) ! i"
proof (induction xs arbitrary: p)
  case Nil
  then show ?case by simp
next
  case (Cons x xs)
  obtain s e where p: "p = (s, e)" by (cases p)
  let ?p1 = "(\<lambda>(r, c). addKey r c) x p"
  have 1: "scan_inv ?p1" "static (fst p) (fst ?p1)"
    using addKey_inv'[of p x] Cons.prems by simp_all
  have same: "key (fst ?p1) ! i = key (fst p) ! i"
    using addKey_untouched[of s e x i] Cons.prems by (simp add: p)
  have "sizeKpd (fst ?p1) = sizeKpd (fst p)" using 1(2) by (simp add: static_def)
  then have g: "in_grid (fst ?p1) = in_grid (fst p)" "codeOf (fst ?p1) = codeOf (fst p)"
    by (rule in_grid_cong, rule codeOf_cong)
  have "key (fst (fold (\<lambda>(r, c). addKey r c) xs ?p1)) ! i = key (fst ?p1) ! i"
  proof (rule Cons.IH[OF 1(1)])
    show "\<forall>x\<in>set xs. in_grid (fst ?p1) x" using Cons.prems(2) g by simp
    show "i < length (key (fst ?p1))" using Cons.prems(3) 1(2) by (simp add: static_def)
    show "kcode (key (fst ?p1) ! i) \<noteq> -1" using Cons.prems(4) same by simp
    show "\<forall>x\<in>set xs. int (codeOf (fst ?p1) x) \<noteq> kcode (key (fst ?p1) ! i)"
      using Cons.prems(5) same g by simp
  qed
  with same show ?case by simp
qed

lemma addKey_no_alloc:
  assumes inv: "scan_inv (s, e)" and g: "in_grid s x" and na: "no_alloc (s, e) x"
  shows "map kcode (key (fst ((\<lambda>(r, c). addKey r c) x (s, e)))) = map kcode (key s)
       \<and> map kchar (key (fst ((\<lambda>(r, c). addKey r c) x (s, e)))) = map kchar (key s)
       \<and> snd ((\<lambda>(r, c). addKey r c) x (s, e)) = e"
proof -
  obtain r c where x: "x = (r, c)" by (cases x)
  have rc: "r < unat (rows (sizeKpd s))" "c < unat (columns (sizeKpd s))"
    using g by (simp_all add: x in_grid_def)
  from inv rc show ?thesis
  proof (cases rule: addKey_step)
    case (found j)
    show ?thesis
      by (simp add: x found(3) nextKeyState_eq[OF found(1)] Let_def map_update
          list_update_same_conv found(1))
  next
    case (new s')
    have "int (cellCode s r c) \<notin> set (map kcode (key s))"
      using new(1) by (auto simp: in_set_conv_nth)
    with na new(2,3) have False by (simp add: no_alloc_def x codeOf_def cellClosed_def)
    then show ?thesis ..
  next
    case dropped
    then show ?thesis by (simp add: x)
  qed
qed

lemma addKey_fold_no_alloc:
  "scan_inv p \<Longrightarrow> \<forall>x\<in>set xs. in_grid (fst p) x \<Longrightarrow> \<forall>x\<in>set xs. no_alloc p x \<Longrightarrow>
   map kcode (key (fst (fold (\<lambda>(r, c). addKey r c) xs p))) = map kcode (key (fst p))
   \<and> map kchar (key (fst (fold (\<lambda>(r, c). addKey r c) xs p))) = map kchar (key (fst p))
   \<and> snd (fold (\<lambda>(r, c). addKey r c) xs p) = snd p"
proof (induction xs arbitrary: p)
  case Nil
  then show ?case by simp
next
  case (Cons x xs)
  obtain s e where p: "p = (s, e)" by (cases p)
  let ?p1 = "(\<lambda>(r, c). addKey r c) x p"
  have 1: "scan_inv ?p1" "static (fst p) (fst ?p1)"
    using addKey_inv'[of p x] Cons.prems by simp_all
  have same: "map kcode (key (fst ?p1)) = map kcode (key (fst p))"
     "map kchar (key (fst ?p1)) = map kchar (key (fst p))" "snd ?p1 = snd p"
    using addKey_no_alloc[of s e x] Cons.prems by (simp_all add: p)
  have "sizeKpd (fst ?p1) = sizeKpd (fst p)" "bitMap (fst ?p1) = bitMap (fst p)"
    using 1(2) by (simp_all add: static_def)
  then have g: "in_grid (fst ?p1) = in_grid (fst p)" "codeOf (fst ?p1) = codeOf (fst p)"
     "cellClosed (fst ?p1) = cellClosed (fst p)"
    by (simp_all only: in_grid_cong[of "fst ?p1" "fst p"] codeOf_cong[of "fst ?p1" "fst p"]
        cellClosed_cong[of "fst ?p1" "fst p"])
  have na: "no_alloc ?p1 y = no_alloc p y" for y
    unfolding no_alloc_def same g ..
  have "map kcode (key (fst (fold (\<lambda>(r, c). addKey r c) xs ?p1))) = map kcode (key (fst ?p1))
       \<and> map kchar (key (fst (fold (\<lambda>(r, c). addKey r c) xs ?p1))) = map kchar (key (fst ?p1))
       \<and> snd (fold (\<lambda>(r, c). addKey r c) xs ?p1) = snd ?p1"
  proof (rule Cons.IH[OF 1(1)])
    show "\<forall>x\<in>set xs. in_grid (fst ?p1) x" using Cons.prems(2) g by simp
    show "\<forall>x\<in>set xs. no_alloc ?p1 x" using Cons.prems(3) na by simp
  qed
  with same show ?case by simp
qed

lemma product_snoc:
  "List.product (xs @ [x]) ys = List.product xs ys @ map (Pair x) ys"
  by (induction xs) simp_all

lemma code_product:
  "map (\<lambda>(r, c). r * C + c) (List.product [0..<R] [0..<C]) = [0..<R * C]"
proof (induction R)
  case 0
  show ?case by simp
next
  case (Suc R)
  have "map (\<lambda>(r, c). r * C + c) (map (Pair R) [0..<C]) = map (\<lambda>c. c + R * C) [0..<C]"
    by (simp add: add.commute)
  also have "\<dots> = [R * C..<C + R * C]" by (rule map_add_upt)
  finally have "map (\<lambda>(r, c). r * C + c) (map (Pair R) [0..<C]) = [R * C..<R * C + C]"
    by (simp add: add.commute)
  then show ?case
    using Suc upt_add_eq_append[of 0 "R * C" C] by (simp add: product_snoc add.commute)
qed

lemma code_cells: "map (codeOf s) (cells s) = [0..<nCells s]"
  using code_product[of "unat (columns (sizeKpd s))" "unat (rows (sizeKpd s))"]
  by (simp add: codeOf_def cellCode_def cells_def nCells_def)

lemma distinct_codes: "distinct (map (codeOf s) (cells s))"
  by (simp add: code_cells)

text \<open>The cell that carries a given key codeOf, and the cells before and after it.\<close>

lemma cells_split:
  assumes "k < nCells s"
  obtains pre x post where "cells s = pre @ x # post" "codeOf s x = k"
    "\<forall>y\<in>set pre. codeOf s y < k" "\<forall>y\<in>set post. k < codeOf s y"
proof -
  have len: "length (cells s) = nCells s" using code_cells[of s] by (metis length_map length_upt diff_zero)
  have nth: "codeOf s (cells s ! i) = i" if "i < nCells s" for i
    using code_cells[of s] that len by (metis nth_map nth_upt add_0)
  let ?pre = "take k (cells s)" and ?post = "drop (Suc k) (cells s)"
  have 1: "cells s = ?pre @ cells s ! k # ?post"
    using assms len by (simp add: id_take_nth_drop)
  have 2: "\<forall>y\<in>set ?pre. codeOf s y < k"
  proof
    fix y assume "y \<in> set ?pre"
    then obtain i where "i < k" "y = cells s ! i"
      using assms len by (auto simp: in_set_conv_nth)
    then show "codeOf s y < k" using nth[of i] assms by simp
  qed
  have 3: "\<forall>y\<in>set ?post. k < codeOf s y"
  proof
    fix y assume "y \<in> set ?post"
    then obtain i where "i < nCells s - Suc k" "y = cells s ! (Suc k + i)"
      using assms len by (auto simp: in_set_conv_nth)
    then show "k < codeOf s y" using nth[of "Suc k + i"] by simp
  qed
  show thesis using 1 nth[OF assms] 2 3 by (rule that)
qed

lemma updateList_fields:
  assumes "KEYPAD_LIST_MAX s \<le> 128"
  shows "key (snd (updateList s)) = key (fst (addKeys (cleaned s, nextEmpty (cleaned s))))"
    and "sizeKpd (snd (updateList s)) = sizeKpd (fst (addKeys (cleaned s, nextEmpty (cleaned s))))"
    and "keymap (snd (updateList s)) = keymap (fst (addKeys (cleaned s, nextEmpty (cleaned s))))"
    and "bitMap (snd (updateList s)) = bitMap (fst (addKeys (cleaned s, nextEmpty (cleaned s))))"
proof -
  have e: "nextEmpty (s\<lparr>key := map clearIdle (key s)\<rparr>) = nextEmpty (cleaned s)"
    by (rule nextEmpty_cong) (simp add: cleaned_def)
  have c: "s\<lparr>key := map clearIdle (key s), ticks := Suc (ticks s)\<rparr> = cleaned s"
    by (simp add: cleaned_def)
  show "key (snd (updateList s)) = key (fst (addKeys (cleaned s, nextEmpty (cleaned s))))"
    and "sizeKpd (snd (updateList s)) = sizeKpd (fst (addKeys (cleaned s, nextEmpty (cleaned s))))"
    and "keymap (snd (updateList s)) = keymap (fst (addKeys (cleaned s, nextEmpty (cleaned s))))"
    and "bitMap (snd (updateList s)) = bitMap (fst (addKeys (cleaned s, nextEmpty (cleaned s))))"
    by (simp_all add: updateList_def deleteIdle_fold[OF assms] millis_def split_beta Let_def e c)
qed

lemma slot_ok_clearIdle: "slot_ok n k \<Longrightarrow> slot_ok n (clearIdle k)"
  by (simp add: slot_ok_def clearIdle_def)

lemma kcode_clearIdle: "kcode (clearIdle k) = kcode k \<or> kcode (clearIdle k) = -1"
  by (simp add: clearIdle_def)

lemma cleaned_fields:
  "sizeKpd (cleaned s) = sizeKpd s" "keymap (cleaned s) = keymap s" "bitMap (cleaned s) = bitMap s"
  "length (key (cleaned s)) = length (key s)"
  "i < length (key s) \<Longrightarrow> key (cleaned s) ! i = clearIdle (key s ! i)"
  by (simp_all add: cleaned_def)

lemma cleaned_inv:
  assumes g: "geometry_ok s" and ro: "registry_ok s"
  shows "scan_inv (cleaned s, nextEmpty (cleaned s))"
proof -
  have "geometry_ok (cleaned s)"
    by (rule geometry_ok_cong[OF g]) (simp_all add: cleaned_fields)
  moreover have "registry_ok (cleaned s)"
    unfolding registry_ok_def
  proof (intro allI impI conjI)
    fix i assume i: "i < length (key (cleaned s))"
    then have i': "i < length (key s)" by (simp add: cleaned_fields)
    have "slot_ok (nCells s) (key s ! i)" using ro i' by (simp add: registry_ok_def)
    then show "slot_ok (nCells (cleaned s)) (key (cleaned s) ! i)"
      using i' by (simp add: cleaned_fields nCells_def slot_ok_clearIdle)
    fix j assume j: "j < length (key (cleaned s))"
      and eq: "kcode (key (cleaned s) ! j) = kcode (key (cleaned s) ! i)"
    then have j': "j < length (key s)" by (simp add: cleaned_fields)
    show "kcode (key (cleaned s) ! i) = -1 \<or> j = i"
    proof (rule ccontr)
      assume n: "\<not> (kcode (key (cleaned s) ! i) = -1 \<or> j = i)"
      then have "kcode (clearIdle (key s ! i)) \<noteq> -1" "kcode (clearIdle (key s ! j)) \<noteq> -1"
        using eq i' j' by (simp_all add: cleaned_fields)
      then have "kcode (clearIdle (key s ! i)) = kcode (key s ! i)"
         "kcode (clearIdle (key s ! j)) = kcode (key s ! j)"
        using kcode_clearIdle[of "key s ! i"] kcode_clearIdle[of "key s ! j"] by auto
      then have "kcode (key s ! j) = kcode (key s ! i)" "kcode (key s ! i) \<noteq> -1"
        using eq n i' j' by (simp_all add: cleaned_fields)
      moreover have "\<forall>j<length (key s). kcode (key s ! j) = kcode (key s ! i)
              \<longrightarrow> kcode (key s ! i) = -1 \<or> j = i"
        using ro i' unfolding registry_ok_def by blast
      ultimately show False using n j' by blast
    qed
  qed
  ultimately show ?thesis by (simp add: scan_inv_def)
qed

text \<open>One update keeps the list well formed.\<close>

lemma updateList_inv:
  assumes g: "geometry_ok s" and ro: "registry_ok s"
  shows "geometry_ok (snd (updateList s)) \<and> registry_ok (snd (updateList s))
       \<and> static s (snd (updateList s))"
proof -
  let ?p = "(cleaned s, nextEmpty (cleaned s))"
  let ?q = "fold (\<lambda>(r, c). addKey r c) (cells (cleaned s)) ?p"
  have lm: "KEYPAD_LIST_MAX s \<le> 128" using g by (simp add: geometry_ok_def)
  have "scan_inv ?q \<and> static (fst ?p) (fst ?q)"
    by (rule addKey_fold_inv[OF cleaned_inv[OF g ro]]) (simp add: cells_in_grid)
  then have q: "geometry_ok (fst ?q)" "registry_ok (fst ?q)" "static (cleaned s) (fst ?q)"
    by (simp_all add: scan_inv_def split_beta)
  have f: "key (snd (updateList s)) = key (fst ?q)" "sizeKpd (snd (updateList s)) = sizeKpd (fst ?q)"
    "keymap (snd (updateList s)) = keymap (fst ?q)" "bitMap (snd (updateList s)) = bitMap (fst ?q)"
    using updateList_fields[OF lm] by (simp_all add: addKeys_cells)
  have "geometry_ok (snd (updateList s))"
    by (rule geometry_ok_cong[OF q(1)]) (simp_all add: f)
  moreover have "registry_ok (snd (updateList s))"
    using q(2) by (simp add: registry_ok_def f nCells_def)
  moreover have "static s (snd (updateList s))"
    using q(3) by (simp add: static_def f cleaned_fields)
  ultimately show ?thesis by simp
qed

lemma scanColumn_same: "same_list s (scanColumn r c s)"
  by (simp add: same_list_def scanColumn_def readRow_def pin_read_def Let_def)

lemma same_list_trans: "same_list s s1 \<Longrightarrow> same_list s1 s2 \<Longrightarrow> same_list s s2"
  by (simp add: same_list_def)

lemma fold_same:
  assumes "\<And>x s. same_list s (f x s)"
  shows "same_list s (fold f xs s)"
proof (induction xs arbitrary: s)
  case Nil
  show ?case by (simp add: same_list_def)
next
  case (Cons x xs)
  show ?case using assms[of s x] Cons[of "f x s"] by (auto intro: same_list_trans)
qed

lemma scanRow_same: "same_list s (scanRow r s)"
proof -
  have 1: "same_list s (writeRowPre r s)"
    by (simp add: same_list_def writeRowPre_def pin_write_def)
  have 2: "same_list (writeRowPre r s)
             (fold (scanColumn r) [0..<unat (columns (sizeKpd s))] (writeRowPre r s))"
    by (rule fold_same) (rule scanColumn_same)
  have 3: "same_list t (writeRowPost r t)" for t
    by (simp add: same_list_def writeRowPost_def pin_write_def)
  show ?thesis
    unfolding scanRow_def using 1 2 3 by (blast intro: same_list_trans)
qed

lemma scanKeys_same: "same_list s (scanKeys s)"
  unfolding scanKeys_def by (rule fold_same) (rule scanRow_same)

lemma registry_ok_cong:
  "registry_ok s \<Longrightarrow> key s' = key s \<Longrightarrow> sizeKpd s' = sizeKpd s \<Longrightarrow> registry_ok s'"
  by (simp add: registry_ok_def nCells_def)

lemma same_list_inv:
  assumes "same_list s s'" "geometry_ok s" "registry_ok s"
  shows "geometry_ok s'" "registry_ok s'"
proof -
  show "geometry_ok s'"
    using assms(1) by (intro geometry_ok_cong[OF assms(2)]) (simp_all add: same_list_def)
  show "registry_ok s'"
    using assms(1) by (intro registry_ok_cong[OF assms(3)]) (simp_all add: same_list_def)
qed

lemma getKeys_inv:
  assumes g: "geometry_ok s" and ro: "registry_ok s"
  shows "geometry_ok (snd (getKeys s)) \<and> registry_ok (snd (getKeys s))"
proof (cases "debounceTime s < clock s (ticks s) - startTime s")
  case False
  have "same_list s (s\<lparr>ticks := Suc (ticks s)\<rparr>)" by (simp add: same_list_def)
  from same_list_inv[OF this g ro] False show ?thesis
    by (simp add: getKeys_def millis_def)
next
  case True
  let ?s1 = "s\<lparr>ticks := Suc (ticks s)\<rparr>"
  let ?s3 = "snd (updateList (scanKeys ?s1))"
  have "same_list s ?s1" by (simp add: same_list_def)
  then have "same_list s (scanKeys ?s1)" using scanKeys_same by (blast intro: same_list_trans)
  from same_list_inv[OF this g ro]
  have 3: "geometry_ok ?s3" "registry_ok ?s3" using updateList_inv by simp_all
  have "same_list ?s3 (?s3\<lparr>ticks := Suc (ticks ?s3), startTime := clock ?s3 (ticks ?s3)\<rparr>)"
    by (simp add: same_list_def)
  from same_list_inv[OF this 3] True show ?thesis
    by (simp add: getKeys_def millis_def split_beta Let_def)
qed

lemma registry_empty_ok: "registry_empty s \<Longrightarrow> registry_ok s"
  by (auto simp: registry_empty_def registry_ok_def list_all_length slot_ok_def idleKey_def)

lemma reachable_inv: "reachable s \<Longrightarrow> geometry_ok s \<and> registry_ok s"
proof (induction rule: reachable.induct)
  case (start s)
  then show ?case by (simp add: registry_empty_ok)
next
  case (poll s)
  then show ?case using getKeys_inv by simp
next
  case (update s)
  then show ?case using updateList_inv by simp
next
  case (outside s s')
  then show ?case using registry_ok_cong[of s s'] by simp
qed

lemma addKey_tracked:
  assumes g: "geometry_ok t"
    and rc: "r < unat (rows (sizeKpd t))" "c < unat (columns (sizeKpd t))"
    and tr: "int (cellCode t r c) \<in> set (map kcode (key t))"
  shows "map kcode (key (fst (addKey r c (t, e)))) = map kcode (key t)"
proof -
  have lm: "KEYPAD_LIST_MAX t \<le> 128" and k: "cellCode t r c < 256"
    using g cellCode_less[OF rc] by (simp_all add: geometry_ok_def)
  have u: "uint (word_of_nat (cellCode t r c) :: byte) = int (cellCode t r c)"
    by (rule keyCode_eq(3)[OF k])
  from tr obtain i0 where "i0 < length (key t)" "kcode (key t ! i0) = int (cellCode t r c)"
    by (auto simp: in_set_conv_nth)
  with findInList_cases[OF lm, of "word_of_nat (cellCode t r c)"] u
  obtain i where i: "i < length (key t)" "kcode (key t ! i) = int (cellCode t r c)"
     "\<forall>j<i. kcode (key t ! j) \<noteq> int (cellCode t r c)"
    by auto
  show ?thesis
    by (simp add: addKey_found[OF lm k i] nextKeyState_eq[OF i(1)] Let_def map_update
        list_update_same_conv i(1))
qed

text \<open>
  C7. In every state reached from an empty key list by polls, updates and changes from
  outside, no two slots hold the same key code, the sentinel \<open>-1\<close> of an empty slot
  apart. And in any update, the iteration for a cell whose code is in the list writes no
  key code: it allocates nothing.
\<close>

theorem one_entry_per_code:
  "(reachable s \<longrightarrow>
      (\<forall>i<KEYPAD_LIST_MAX s. \<forall>j<KEYPAD_LIST_MAX s.
          i \<noteq> j \<and> kcode (key s ! i) \<noteq> -1 \<longrightarrow> kcode (key s ! j) \<noteq> kcode (key s ! i)))
 \<and> (geometry_ok t \<and> r < unat (rows (sizeKpd t)) \<and> c < unat (columns (sizeKpd t))
      \<and> int (cellCode t r c) \<in> set (map kcode (key t))
      \<longrightarrow> map kcode (key (fst (addKey r c (t, e)))) = map kcode (key t))"
proof (intro conjI impI allI)
  fix i j
  assume r: "reachable s" and i: "i < KEYPAD_LIST_MAX s" and j: "j < KEYPAD_LIST_MAX s"
    and ne: "i \<noteq> j \<and> kcode (key s ! i) \<noteq> -1"
  have "registry_ok s" using reachable_inv[OF r] by simp
  then have "\<forall>j<length (key s). kcode (key s ! j) = kcode (key s ! i)
              \<longrightarrow> kcode (key s ! i) = -1 \<or> j = i"
    using i unfolding registry_ok_def KEYPAD_LIST_MAX_def by blast
  then show "kcode (key s ! j) \<noteq> kcode (key s ! i)"
    using j ne by (auto simp: KEYPAD_LIST_MAX_def)
next
  assume "geometry_ok t \<and> r < unat (rows (sizeKpd t)) \<and> c < unat (columns (sizeKpd t))
      \<and> int (cellCode t r c) \<in> set (map kcode (key t))"
  then show "map kcode (key (fst (addKey r c (t, e)))) = map kcode (key t)"
    using addKey_tracked by blast
qed

lemma reachable_pressed_demo: "reachable pressed_demo"
proof -
  have 0: "reachable demo" by (rule reachable.start; code_simp)
  have 1: "reachable (demo\<lparr>clock := (\<lambda>n. 0), bitMap := [1, 0]\<rparr>)"
  proof (rule reachable.outside[OF 0])
    show "geometry_ok (demo\<lparr>clock := (\<lambda>n. 0), bitMap := [1, 0]\<rparr>)" by code_simp
  qed simp_all
  have 2: "reachable (update_at 0 [1, 0] demo)"
    unfolding update_at_def by (rule reachable.update[OF 1])
  have 3: "reachable ((update_at 0 [1, 0] demo)\<lparr>clock := (\<lambda>n. 400), bitMap := [3, 0]\<rparr>)"
  proof (rule reachable.outside[OF 2])
    show "geometry_ok ((update_at 0 [1, 0] demo)\<lparr>clock := (\<lambda>n. 400), bitMap := [3, 0]\<rparr>)"
      by code_simp
  qed simp_all
  show ?thesis
    unfolding pressed_demo_def update_at_def[of 400]
    by (rule reachable.update[OF 3])
qed

theorem one_entry_per_code_witness:
  "map kcode (key pressed_demo) = [0, 1]
   \<and> kcode (key pressed_demo ! 1) \<noteq> kcode (key pressed_demo ! 0)
   \<and> map kcode (key (fst (addKey 0 1 (pressed_demo, 0xFF)))) = [0, 1]"
proof -
  have a: "map kcode (key pressed_demo) = [0, 1]" "KEYPAD_LIST_MAX pressed_demo = 2"
    "geometry_ok pressed_demo" "sizeKpd pressed_demo = \<lparr>rows = 2, columns = 2\<rparr>"
    "cellCode pressed_demo 0 1 = 1"
    "kcode (key pressed_demo ! 0) = 0" "kcode (key pressed_demo ! 1) = 1"
    by code_simp+
  show ?thesis
    using one_entry_per_code[of pressed_demo pressed_demo 0 1 "0xFF"] reachable_pressed_demo a
    by simp
qed

text \<open>
  C10. \<open>getState\<close> and \<open>keyStateChanged\<close> read slot 0 of the list and nothing else:
  writing any other slot leaves both results as they were. In every reachable state, when
  slot 0 is empty \<open>getState\<close> is IDLE and \<open>keyStateChanged\<close> is false; and when slot 0
  is in IDLE, the first loop of an update empties it and the two queries then return IDLE
  and false.
\<close>

theorem primary_key_queries:
  assumes "reachable s" "0 < KEYPAD_LIST_MAX s"
  shows "getState s = kstate (key s ! 0) \<and> keyStateChanged s = stateChanged (key s ! 0)
     \<and> (kchar (key s ! 0) = KEYPAD_NO_KEY \<longrightarrow> getState s = IDLE \<and> \<not> keyStateChanged s)
     \<and> (kstate (key s ! 0) = IDLE \<longrightarrow>
          kchar (key (fst (fold deleteIdle [0..<KEYPAD_LIST_MAX s] (s, 0xFF))) ! 0) = KEYPAD_NO_KEY
        \<and> getState (fst (fold deleteIdle [0..<KEYPAD_LIST_MAX s] (s, 0xFF))) = IDLE
        \<and> \<not> keyStateChanged (fst (fold deleteIdle [0..<KEYPAD_LIST_MAX s] (s, 0xFF))))
     \<and> (\<forall>i k. 0 < i \<longrightarrow> getState (s\<lparr>key := (key s)[i := k]\<rparr>) = getState s
                      \<and> keyStateChanged (s\<lparr>key := (key s)[i := k]\<rparr>) = keyStateChanged s)"
proof -
  have g: "geometry_ok s" and ro: "registry_ok s" using reachable_inv[OF assms(1)] by simp_all
  have lm: "KEYPAD_LIST_MAX s \<le> 128" using g by (simp add: geometry_ok_def)
  have 0: "0 < length (key s)" using assms(2) by (simp add: KEYPAD_LIST_MAX_def)
  have "slot_ok (nCells s) (key s ! 0)" using ro 0 by (simp add: registry_ok_def)
  then have e: "kchar (key s ! 0) = KEYPAD_NO_KEY \<longrightarrow> kstate (key s ! 0) = IDLE \<and> \<not> stateChanged (key s ! 0)"
    by (simp add: slot_ok_def)
  have c: "kstate (key s ! 0) = IDLE \<longrightarrow> clearIdle (key s ! 0)
             = (key s ! 0)\<lparr>kchar := KEYPAD_NO_KEY, kcode := -1, stateChanged := False\<rparr>"
    by (simp add: clearIdle_def)
  show ?thesis
    using e c 0 by (simp add: getState_def keyStateChanged_def deleteIdle_fold[OF lm])
qed

theorem primary_key_queries_witness:
  "getState pressed_demo = PRESSED
   \<and> getState (pressed_demo\<lparr>key := (key pressed_demo)[1 := idleKey]\<rparr>) = PRESSED
   \<and> kchar (key demo ! 0) = KEYPAD_NO_KEY \<and> getState demo = IDLE \<and> \<not> keyStateChanged demo"
proof -
  have 0: "reachable demo" by (rule reachable.start; code_simp)
  have a: "0 < KEYPAD_LIST_MAX pressed_demo" "0 < KEYPAD_LIST_MAX demo"
    "kstate (key pressed_demo ! 0) = PRESSED" "kchar (key demo ! 0) = KEYPAD_NO_KEY"
    by code_simp+
  have "getState pressed_demo = PRESSED"
    "getState (pressed_demo\<lparr>key := (key pressed_demo)[1 := idleKey]\<rparr>) = getState pressed_demo"
    using primary_key_queries[OF reachable_pressed_demo a(1)] a(3) by simp_all
  moreover have "getState demo = IDLE \<and> \<not> keyStateChanged demo"
    using primary_key_queries[OF 0 a(2)] a(4) by blast
  ultimately show ?thesis using a(4) by simp
qed

text \<open>
  During the loop over the cells, a slot that holds a key code is touched exactly once:
  by \<open>nextKeyState\<close>, at the cell that carries its code.
\<close>

lemma tracked_slot_step:
  assumes inv: "scan_inv p" and i: "i < length (key (fst p))"
    and k: "kcode (key (fst p) ! i) = int k" "k < nCells (fst p)"
  shows "\<exists>b t. key (fst (fold (\<lambda>(r, c). addKey r c) (cells (fst p)) p)) ! i
                = key (nextKeyState i b t) ! i
             \<and> i < length (key t) \<and> key t ! i = key (fst p) ! i"
proof -
  let ?f = "\<lambda>(r, c). addKey r c"
  obtain pre x post where sp: "cells (fst p) = pre @ x # post" "codeOf (fst p) x = k"
    "\<forall>y\<in>set pre. codeOf (fst p) y < k" "\<forall>y\<in>set post. k < codeOf (fst p) y"
    using cells_split[OF k(2)] by blast
  have grid: "\<forall>y\<in>set pre. in_grid (fst p) y" "in_grid (fst p) x" "\<forall>y\<in>set post. in_grid (fst p) y"
    using cells_in_grid[of _ "fst p"] sp(1) by simp_all
  have nm: "kcode (key (fst p) ! i) \<noteq> -1" using k(1) by simp
  \<comment> \<open>the cells before\<close>
  let ?p1 = "fold ?f pre p"
  have p1: "scan_inv ?p1" "static (fst p) (fst ?p1)"
    using addKey_fold_inv[OF inv grid(1)] by simp_all
  have u1: "key (fst ?p1) ! i = key (fst p) ! i"
    using sp(3) k(1) by (intro addKey_fold_untouched[OF inv grid(1) i nm]) auto
  have sz1: "sizeKpd (fst ?p1) = sizeKpd (fst p)" and len1: "length (key (fst ?p1)) = length (key (fst p))"
    using p1(2) by (simp_all add: static_def)
  have c1: "codeOf (fst ?p1) = codeOf (fst p)" "in_grid (fst ?p1) = in_grid (fst p)"
    using sz1 by (rule codeOf_cong, rule in_grid_cong)
  \<comment> \<open>the cell of the slot\<close>
  obtain s1 e1 where se: "?p1 = (s1, e1)" by (cases ?p1)
  obtain r c where x: "x = (r, c)" by (cases x)
  have inv1: "scan_inv (s1, e1)" using p1(1) se by simp
  have rc: "r < unat (rows (sizeKpd s1))" "c < unat (columns (sizeKpd s1))"
    using grid(2) sz1 se by (simp_all add: x in_grid_def)
  have cc: "cellCode s1 r c = cellCode (fst p) r c"
    using sz1 se by (simp add: cellCode_def)
  have kc: "int (cellCode s1 r c) = kcode (key s1 ! i)" and i1: "i < length (key s1)"
    using sp(2) cc u1 k(1) len1 i se by (simp_all add: x codeOf_def)
  have ro1: "registry_ok s1" using inv1 by (simp add: scan_inv_def)
  let ?p2 = "?f x ?p1"
  have step: "?p2 = (nextKeyState i (bitRead (bitMap s1 ! r) c) s1, e1)"
    using inv1 rc
  proof (cases rule: addKey_step)
    case (found j)
    have "\<forall>j<length (key s1). kcode (key s1 ! j) = kcode (key s1 ! i)
              \<longrightarrow> kcode (key s1 ! i) = -1 \<or> j = i"
      using ro1 i1 unfolding registry_ok_def by blast
    then have "j = i" using found(1,2) kc k(1) u1 se by auto
    then show ?thesis using found(3) by (simp add: se x)
  next
    case (new s')
    then show ?thesis using kc i1 by auto
  next
    case dropped
    then show ?thesis using kc i1 by auto
  qed
  have p2: "scan_inv ?p2" "static (fst ?p1) (fst ?p2)"
    using addKey_inv'[OF p1(1), of x] grid(2) c1(2) by simp_all
  have sz2: "sizeKpd (fst ?p2) = sizeKpd (fst p)" and len2: "length (key (fst ?p2)) = length (key (fst p))"
    using p2(2) sz1 len1 by (simp_all add: static_def)
  have c2: "codeOf (fst ?p2) = codeOf (fst p)" "in_grid (fst ?p2) = in_grid (fst p)"
    using sz2 by (rule codeOf_cong, rule in_grid_cong)
  have k2: "kcode (key (fst ?p2) ! i) = int k"
    using step kc i1 sp(2) cc se by (simp add: nextKeyState_eq Let_def x codeOf_def)
  \<comment> \<open>the cells after\<close>
  have u3: "key (fst (fold ?f post ?p2)) ! i = key (fst ?p2) ! i"
  proof (rule addKey_fold_untouched[OF p2(1)])
    show "\<forall>x\<in>set post. in_grid (fst ?p2) x" using grid(3) c2(2) by simp
    show "i < length (key (fst ?p2))" using len2 i by simp
    show "kcode (key (fst ?p2) ! i) \<noteq> -1" using k2 by simp
    show "\<forall>y\<in>set post. int (codeOf (fst ?p2) y) \<noteq> kcode (key (fst ?p2) ! i)"
      using sp(4) k2 c2(1) by auto
  qed
  have "key (fst (fold ?f (cells (fst p)) p)) ! i = key (fst ?p2) ! i"
    using u3 by (simp add: sp(1))
  also have "\<dots> = key (nextKeyState i (bitRead (bitMap s1 ! r) c) s1) ! i"
    using step by simp
  finally show ?thesis using i1 u1 se by auto
qed

lemma updateList_tracked_slot:
  assumes g: "geometry_ok s" and ro: "registry_ok s" and i: "i < length (key s)"
    and st: "kstate (key s ! i) \<noteq> IDLE"
  shows "\<exists>b t. key (snd (updateList s)) ! i = key (nextKeyState i b t) ! i
             \<and> i < length (key t) \<and> key t ! i = key s ! i"
proof -
  let ?p = "(cleaned s, nextEmpty (cleaned s))"
  have lm: "KEYPAD_LIST_MAX s \<le> 128" using g by (simp add: geometry_ok_def)
  have inv: "scan_inv ?p" by (rule cleaned_inv[OF g ro])
  have same: "key (cleaned s) ! i = key s ! i"
    using i st by (simp add: cleaned_fields clearIdle_def)
  have "slot_ok (nCells s) (key s ! i)" using ro i by (simp add: registry_ok_def)
  then have c: "0 \<le> kcode (key s ! i)" "kcode (key s ! i) < int (nCells s)"
    using st by (auto simp: slot_ok_def split: if_splits)
  have n: "nCells (cleaned s) = nCells s" by (simp add: nCells_def cleaned_fields)
  have "\<exists>b t. key (fst (fold (\<lambda>(r, c). addKey r c) (cells (fst ?p)) ?p)) ! i
                = key (nextKeyState i b t) ! i
             \<and> i < length (key t) \<and> key t ! i = key (fst ?p) ! i"
  proof (rule tracked_slot_step[OF inv, where k = "nat (kcode (key s ! i))"])
    show "i < length (key (fst ?p))" using i by (simp add: cleaned_fields)
    show "kcode (key (fst ?p) ! i) = int (nat (kcode (key s ! i)))" using same c by simp
    show "nat (kcode (key s ! i)) < nCells (fst ?p)" using c n by simp
  qed
  then show ?thesis
    using same by (simp add: updateList_fields(1)[OF lm] addKeys_cells)
qed

text \<open>
  C4. A key in RELEASED is in IDLE after the next update, whatever the bitmap of that
  update holds for its cell (and \<open>nextKeyState\<close> itself takes RELEASED to IDLE for either
  input). The slot still carries the key's character after this update; the first loop of
  the update after it empties the slot.
\<close>

theorem released_is_single_cycle:
  assumes "reachable s" "i < KEYPAD_LIST_MAX s" "kstate (key s ! i) = RELEASED"
  shows "kstate (key (nextKeyState i closed s) ! i) = IDLE
       \<and> (\<forall>bm. length bm = length (bitMap s)
             \<longrightarrow> kstate (key (snd (updateList (s\<lparr>bitMap := bm\<rparr>))) ! i) = IDLE
               \<and> kchar (key (snd (updateList (s\<lparr>bitMap := bm\<rparr>))) ! i) = kchar (key s ! i)
               \<and> kchar (key (fst (fold deleteIdle
                    [0..<KEYPAD_LIST_MAX (snd (updateList (s\<lparr>bitMap := bm\<rparr>)))]
                    (snd (updateList (s\<lparr>bitMap := bm\<rparr>)), 0xFF))) ! i) = KEYPAD_NO_KEY)"
proof (intro conjI allI impI)
  have len: "i < length (key s)" using assms(2) by (simp add: KEYPAD_LIST_MAX_def)
  show "kstate (key (nextKeyState i closed s) ! i) = IDLE"
    using assms(3) by (simp add: nextKeyState_kstate[OF len])
  fix bm :: "uint list" assume bm: "length bm = length (bitMap s)"
  let ?s = "s\<lparr>bitMap := bm\<rparr>"
  let ?s' = "snd (updateList ?s)"
  have g0: "geometry_ok s" and ro0: "registry_ok s" using reachable_inv[OF assms(1)] by simp_all
  have g: "geometry_ok ?s" using bm by (intro geometry_ok_cong[OF g0]) simp_all
  have ro: "registry_ok ?s" by (rule registry_ok_cong[OF ro0]) simp_all
  have i: "i < length (key ?s)" "kstate (key ?s ! i) \<noteq> IDLE" using len assms(3) by simp_all
  from updateList_tracked_slot[OF g ro i]
  obtain b t where t: "key ?s' ! i = key (nextKeyState i b t) ! i" "i < length (key t)"
    "key t ! i = key s ! i" by auto
  show 1: "kstate (key ?s' ! i) = IDLE"
    using t assms(3) by (simp add: nextKeyState_kstate)
  show "kchar (key ?s' ! i) = kchar (key s ! i)"
    using t by (simp add: nextKeyState_eq Let_def)
  have inv': "geometry_ok ?s'" "static ?s ?s'" using updateList_inv[OF g ro] by simp_all
  then have lm': "KEYPAD_LIST_MAX ?s' \<le> 128" and len': "i < length (key ?s')"
    using len by (simp_all add: geometry_ok_def static_def)
  show "kchar (key (fst (fold deleteIdle [0..<KEYPAD_LIST_MAX ?s'] (?s', 0xFF))) ! i) = KEYPAD_NO_KEY"
    using 1 len' by (simp add: deleteIdle_fold[OF lm'] clearIdle_def)
qed

lemma reachable_released_demo: "reachable released_demo"
proof -
  have 0: "reachable demo" by (rule reachable.start; code_simp)
  have 1: "reachable (demo\<lparr>clock := (\<lambda>n. 0), bitMap := [1, 0]\<rparr>)"
  proof (rule reachable.outside[OF 0])
    show "geometry_ok (demo\<lparr>clock := (\<lambda>n. 0), bitMap := [1, 0]\<rparr>)" by code_simp
  qed simp_all
  have 2: "reachable (update_at 0 [1, 0] demo)"
    unfolding update_at_def by (rule reachable.update[OF 1])
  have 3: "reachable ((update_at 0 [1, 0] demo)\<lparr>clock := (\<lambda>n. 20), bitMap := [0, 0]\<rparr>)"
  proof (rule reachable.outside[OF 2])
    show "geometry_ok ((update_at 0 [1, 0] demo)\<lparr>clock := (\<lambda>n. 20), bitMap := [0, 0]\<rparr>)"
      by code_simp
  qed simp_all
  show ?thesis
    unfolding released_demo_def update_at_def[of 20]
    by (rule reachable.update[OF 3])
qed

theorem released_is_single_cycle_witness:
  "kstate (key released_demo ! 0) = RELEASED
   \<and> kstate (key (snd (updateList (released_demo\<lparr>bitMap := [1, 0]\<rparr>))) ! 0) = IDLE
   \<and> kstate (key (snd (updateList (released_demo\<lparr>bitMap := [0, 0]\<rparr>))) ! 0) = IDLE"
proof -
  have a: "0 < KEYPAD_LIST_MAX released_demo" "kstate (key released_demo ! 0) = RELEASED"
    "length (bitMap released_demo) = 2"
    by code_simp+
  show ?thesis
    using released_is_single_cycle[OF reachable_released_demo a(1,2)] a(2,3) by simp
qed

lemma cleaned_codes:
  "c \<noteq> -1 \<Longrightarrow>
   (c \<in> set (map kcode (key (cleaned s))))
     = (c \<in> set (map kcode (filter (\<lambda>k. kstate k \<noteq> IDLE) (key s))))"
  by (auto simp: cleaned_def clearIdle_def image_iff)

lemma cells_order:
  assumes "cells s = pre @ x # post"
  shows "\<forall>y\<in>set post. codeOf s x < codeOf s y"
proof -
  have "sorted_wrt (<) (map (codeOf s) (cells s))" by (simp add: code_cells)
  then show ?thesis by (simp add: assms sorted_wrt_append)
qed

lemma nextEmpty_full:
  assumes "KEYPAD_LIST_MAX s \<le> 128" "\<forall>j<length (key s). kchar (key s ! j) \<noteq> KEYPAD_NO_KEY"
  shows "nextEmpty s = 0xFF"
  using nextEmpty_cases[OF assms(1)] assms(2) by auto

lemma nextEmpty_only:
  assumes "KEYPAD_LIST_MAX s \<le> 128" "i < length (key s)" "kchar (key s ! i) = KEYPAD_NO_KEY"
    "\<forall>j<length (key s). j \<noteq> i \<longrightarrow> kchar (key s ! j) \<noteq> KEYPAD_NO_KEY"
  shows "nextEmpty s \<noteq> 0xFF \<and> unat (nextEmpty s) = i"
  using nextEmpty_cases[OF assms(1)] assms(2,3,4) by auto

lemma single_slot_alloc:
  assumes inv: "scan_inv (s, e)"
    and one: "i0 < length (key s)" "kchar (key s ! i0) = KEYPAD_NO_KEY"
      "\<forall>j<length (key s). j \<noteq> i0 \<longrightarrow> kchar (key s ! j) \<noteq> KEYPAD_NO_KEY"
    and sp: "cells s = pre @ x # post"
    and pre: "\<forall>u\<in>set pre. \<not> (cellClosed s u \<and> int (codeOf s u) \<notin> set (map kcode (key s)))"
    and x: "cellClosed s x" "int (codeOf s x) \<notin> set (map kcode (key s))"
  shows "key (fst (fold (\<lambda>(r, c). addKey r c) (cells s) (s, e))) ! i0 = newKey s (codeOf s x)
       \<and> map kcode (key (fst (fold (\<lambda>(r, c). addKey r c) (cells s) (s, e))))
           = (map kcode (key s))[i0 := int (codeOf s x)]"
proof -
  let ?f = "\<lambda>(r, c). addKey r c"
  have g: "geometry_ok s" and ro: "registry_ok s" and e: "e = nextEmpty s"
    using inv by (simp_all add: scan_inv_def)
  have lm: "KEYPAD_LIST_MAX s \<le> 128" using g by (simp add: geometry_ok_def)
  have e0: "e \<noteq> 0xFF" "unat e = i0" using nextEmpty_only[OF lm one] e by simp_all
  have grid: "\<forall>y\<in>set pre. in_grid s y" "in_grid s x" "\<forall>y\<in>set post. in_grid s y"
    using cells_in_grid[of _ s] sp by simp_all
  \<comment> \<open>the cells before the first new press allocate nothing\<close>
  let ?p1 = "fold ?f pre (s, e)"
  obtain s1 e1 where se: "?p1 = (s1, e1)" by (cases ?p1)
  have na: "\<forall>u\<in>set pre. no_alloc (s, e) u" using pre by (auto simp: no_alloc_def)
  have p1: "scan_inv (s1, e1)" "static s s1"
    using addKey_fold_inv[of "(s, e)" pre] inv grid(1) se by simp_all
  have m1: "map kcode (key s1) = map kcode (key s)" "map kchar (key s1) = map kchar (key s)"
    "e1 = e"
    using addKey_fold_no_alloc[of "(s, e)" pre] inv grid(1) na se by simp_all
  have st1: "sizeKpd s1 = sizeKpd s" "keymap s1 = keymap s" "bitMap s1 = bitMap s"
    "length (key s1) = length (key s)"
    using p1(2) by (simp_all add: static_def)
  \<comment> \<open>the first new press takes the slot\<close>
  obtain r c where xrc: "x = (r, c)" by (cases x)
  have rc: "r < unat (rows (sizeKpd s1))" "c < unat (columns (sizeKpd s1))"
    using grid(2) st1(1) by (simp_all add: xrc in_grid_def)
  have cc: "cellCode s1 r c = codeOf s x" using st1(1) by (simp add: xrc codeOf_def cellCode_def)
  have cl: "bitRead (bitMap s1 ! r) c" using x(1) st1(3) by (simp add: xrc cellClosed_def)
  have nt: "int (cellCode s1 r c) \<notin> set (map kcode (key s1))" using x(2) cc m1(1) by simp
  from p1(1) rc obtain s2 where s2: "addKey r c (s1, e1) = (s2, nextEmpty s2)"
    "key s2 = (key s1)[i0 := newKey s1 (cellCode s1 r c)]"
    "sizeKpd s2 = sizeKpd s1" "keymap s2 = keymap s1" "bitMap s2 = bitMap s1"
  proof (cases rule: addKey_step)
    case (found j)
    then have "int (cellCode s1 r c) \<in> set (map kcode (key s1))"
      by (metis length_map nth_map nth_mem)
    with nt show ?thesis by simp
  next
    case (new s')
    then show ?thesis using that[of s'] e0 m1(3) by simp
  next
    case dropped
    then show ?thesis using cl e0 m1(3) by simp
  qed
  have nk: "newKey s1 (cellCode s1 r c) = newKey s (codeOf s x)"
    using cc st1(2) by (simp add: newKey_def)
  have k2: "key s2 = (key s1)[i0 := newKey s (codeOf s x)]" using s2(2) nk by simp
  let ?p2 = "(s2, nextEmpty s2)"
  have p2: "scan_inv ?p2" "static s1 s2"
    using addKey_inv'[OF p1(1), of x] grid(2) st1(1) s2(1)
    by (simp_all add: xrc in_grid_def)
  have st2: "sizeKpd s2 = sizeKpd s" "length (key s2) = length (key s)"
    using p2(2) st1 by (simp_all add: static_def)
  have lm2: "KEYPAD_LIST_MAX s2 \<le> 128" using lm st2(2) by (simp add: KEYPAD_LIST_MAX_def)
  have kx: "codeOf s x < nCells s"
    using cellCode_less[of r s c] grid(2) by (simp add: xrc in_grid_def codeOf_def)
  then have km: "keymap s (codeOf s x) \<noteq> KEYPAD_NO_KEY"
    using g by (simp add: geometry_ok_def list_all_iff)
  have full: "\<forall>j<length (key s2). kchar (key s2 ! j) \<noteq> KEYPAD_NO_KEY"
  proof (intro allI impI)
    fix j assume j: "j < length (key s2)"
    show "kchar (key s2 ! j) \<noteq> KEYPAD_NO_KEY"
    proof (cases "j = i0")
      case True
      then show ?thesis using k2 one(1) st1(4) km by (simp add: newKey_def)
    next
      case False
      have "kchar (key s1 ! j) = kchar (key s ! j)"
        using m1(2) j st2(2) st1(4) by (metis nth_map)
      then show ?thesis using False k2 one(3) j st2(2) by simp
    qed
  qed
  have e2: "nextEmpty s2 = 0xFF" by (rule nextEmpty_full[OF lm2 full])
  \<comment> \<open>with no empty slot left, the cells after it allocate nothing\<close>
  have g2: "in_grid s2 = in_grid s" "codeOf s2 = codeOf s"
    using st2(1) by (rule in_grid_cong, rule codeOf_cong)
  have grid2: "\<forall>y\<in>set post. in_grid (fst ?p2) y" using grid(3) g2(1) by simp
  have na2: "\<forall>u\<in>set post. no_alloc ?p2 u" using e2 by (simp add: no_alloc_def)
  have m3: "map kcode (key (fst (fold ?f post ?p2))) = map kcode (key s2)"
    using addKey_fold_no_alloc[OF p2(1) grid2 na2] by simp
  have c2: "kcode (key s2 ! i0) = int (codeOf s x)"
    using k2 one(1) st1(4) by (simp add: newKey_def)
  have u3: "key (fst (fold ?f post ?p2)) ! i0 = key (fst ?p2) ! i0"
  proof (rule addKey_fold_untouched[OF p2(1) grid2])
    show "i0 < length (key (fst ?p2))" using one(1) st2(2) by simp
    show "kcode (key (fst ?p2) ! i0) \<noteq> -1" using c2 by simp
    have "\<forall>y\<in>set post. codeOf s x < codeOf s y" by (rule cells_order[OF sp])
    then show "\<forall>y\<in>set post. int (codeOf (fst ?p2) y) \<noteq> kcode (key (fst ?p2) ! i0)"
      using c2 g2(2) by auto
  qed
  have whole: "fold ?f (cells s) (s, e) = fold ?f post ?p2"
    using se s2(1) by (simp add: sp xrc)
  have "key (fst (fold ?f (cells s) (s, e))) ! i0 = newKey s (codeOf s x)"
    using u3 k2 one(1) st1(4) by (simp add: whole)
  moreover have "map kcode (key (fst (fold ?f (cells s) (s, e))))
                 = (map kcode (key s))[i0 := int (codeOf s x)]"
    using m3 k2 m1(1) by (simp add: whole map_update newKey_def)
  ultimately show ?thesis by simp
qed

text \<open>
  When exactly one slot is free for an update, the first new press in the order of the
  loops takes that slot, and no other new press is in the list after the update.
\<close>

lemma single_free_slot:
  assumes "reachable s"
    and "i0 < KEYPAD_LIST_MAX s" "kstate (key s ! i0) = IDLE"
    and "\<forall>j<KEYPAD_LIST_MAX s. j \<noteq> i0 \<longrightarrow> kstate (key s ! j) \<noteq> IDLE"
    and "newPresses s = x # rest"
  shows "key (snd (updateList s)) ! i0 = newKey s (codeOf s x)
       \<and> (\<forall>y\<in>set rest. codeOf s x < codeOf s y
             \<and> int (codeOf s y) \<notin> set (map kcode (key (snd (updateList s)))))"
proof -
  let ?P = "\<lambda>x. cellClosed s x
                \<and> int (codeOf s x) \<notin> set (map kcode (filter (\<lambda>k. kstate k \<noteq> IDLE) (key s)))"
  let ?s2 = "cleaned s"
  have g: "geometry_ok s" and ro: "registry_ok s" using reachable_inv[OF assms(1)] by simp_all
  have lm: "KEYPAD_LIST_MAX s \<le> 128" using g by (simp add: geometry_ok_def)
  have i0: "i0 < length (key s)" using assms(2) by (simp add: KEYPAD_LIST_MAX_def)
  have inv: "scan_inv (?s2, nextEmpty ?s2)" by (rule cleaned_inv[OF g ro])
  have same: "cells ?s2 = cells s" "codeOf ?s2 = codeOf s" "cellClosed ?s2 = cellClosed s"
    "newKey ?s2 = newKey s"
    by (simp_all add: cells_def codeOf_def cellCode_def cellClosed_def newKey_def cleaned_fields
        fun_eq_iff)
  from assms(5) obtain pre post where sp: "cells s = pre @ x # post"
    "\<forall>u\<in>set pre. \<not> ?P u" "?P x" "rest = filter ?P post"
    unfolding newPresses_def filter_eq_Cons_iff by blast
  have tr: "(int (codeOf s y) \<in> set (map kcode (key ?s2)))
          = (int (codeOf s y) \<in> set (map kcode (filter (\<lambda>k. kstate k \<noteq> IDLE) (key s))))" for y
    by (rule cleaned_codes) simp
  have one: "i0 < length (key ?s2)" "kchar (key ?s2 ! i0) = KEYPAD_NO_KEY"
    "\<forall>j<length (key ?s2). j \<noteq> i0 \<longrightarrow> kchar (key ?s2 ! j) \<noteq> KEYPAD_NO_KEY"
  proof -
    show "i0 < length (key ?s2)" using i0 by (simp add: cleaned_fields)
    show "kchar (key ?s2 ! i0) = KEYPAD_NO_KEY"
      using i0 assms(3) by (simp add: cleaned_fields clearIdle_def)
    show "\<forall>j<length (key ?s2). j \<noteq> i0 \<longrightarrow> kchar (key ?s2 ! j) \<noteq> KEYPAD_NO_KEY"
    proof (intro allI impI)
      fix j assume j: "j < length (key ?s2)" "j \<noteq> i0"
      then have j': "j < length (key s)" by (simp add: cleaned_fields)
      then have ni: "kstate (key s ! j) \<noteq> IDLE"
        using assms(4) j(2) by (simp add: KEYPAD_LIST_MAX_def)
      have "slot_ok (nCells s) (key s ! j)" using ro j' by (simp add: registry_ok_def)
      then have "kchar (key s ! j) \<noteq> KEYPAD_NO_KEY" using ni by (auto simp: slot_ok_def)
      then show "kchar (key ?s2 ! j) \<noteq> KEYPAD_NO_KEY"
        using j' ni by (simp add: cleaned_fields clearIdle_def)
    qed
  qed
  have res: "key (fst (fold (\<lambda>(r, c). addKey r c) (cells ?s2) (?s2, nextEmpty ?s2))) ! i0
               = newKey ?s2 (codeOf ?s2 x)
       \<and> map kcode (key (fst (fold (\<lambda>(r, c). addKey r c) (cells ?s2) (?s2, nextEmpty ?s2))))
           = (map kcode (key ?s2))[i0 := int (codeOf ?s2 x)]"
  proof (rule single_slot_alloc[OF inv one, where pre = pre and post = post])
    show "cells ?s2 = pre @ x # post" using sp(1) same(1) by simp
    show "\<forall>u\<in>set pre. \<not> (cellClosed ?s2 u \<and> int (codeOf ?s2 u) \<notin> set (map kcode (key ?s2)))"
      using sp(2) tr by (simp add: same)
    show "cellClosed ?s2 x" using sp(3) by (simp add: same)
    show "int (codeOf ?s2 x) \<notin> set (map kcode (key ?s2))" using sp(3) tr by (simp add: same)
  qed
  have k: "key (snd (updateList s))
           = key (fst (fold (\<lambda>(r, c). addKey r c) (cells ?s2) (?s2, nextEmpty ?s2)))"
    by (simp add: updateList_fields(1)[OF lm] addKeys_cells)
  have 1: "key (snd (updateList s)) ! i0 = newKey s (codeOf s x)"
    using res by (simp add: k same)
  have 2: "codeOf s x < codeOf s y
           \<and> int (codeOf s y) \<notin> set (map kcode (key (snd (updateList s))))"
    if y: "y \<in> set rest" for y
  proof -
    have yp: "y \<in> set post" "?P y" using y sp(4) by simp_all
    have lt: "codeOf s x < codeOf s y" using cells_order[OF sp(1)] yp(1) by simp
    have "int (codeOf s y) \<notin> set (map kcode (key ?s2))" using yp(2) tr by simp
    moreover have "set ((map kcode (key ?s2))[i0 := int (codeOf s x)])
                   \<subseteq> insert (int (codeOf s x)) (set (map kcode (key ?s2)))"
      by (rule set_update_subset_insert)
    ultimately have "int (codeOf s y) \<notin> set ((map kcode (key ?s2))[i0 := int (codeOf s x)])"
      using lt by auto
    then show ?thesis using lt res by (simp add: k same)
  qed
  show ?thesis using 1 2 by blast
qed

lemma reachable_contended_demo: "reachable contended_demo"
proof -
  have 0: "reachable demo" by (rule reachable.start; code_simp)
  have 1: "reachable (demo\<lparr>clock := (\<lambda>n. 0), bitMap := [1, 0]\<rparr>)"
  proof (rule reachable.outside[OF 0])
    show "geometry_ok (demo\<lparr>clock := (\<lambda>n. 0), bitMap := [1, 0]\<rparr>)" by code_simp
  qed simp_all
  have 2: "reachable (update_at 0 [1, 0] demo)"
    unfolding update_at_def by (rule reachable.update[OF 1])
  show ?thesis
    unfolding contended_demo_def
  proof (rule reachable.outside[OF 2])
    show "geometry_ok ((update_at 0 [1, 0] demo)\<lparr>bitMap := [1, 3]\<rparr>)" by code_simp
  qed simp_all
qed

lemma freeSlots_kchar: "map kchar ks' = map kchar ks \<Longrightarrow> freeSlots ks' = freeSlots ks"
proof -
  have "freeSlots ks = length (filter (\<lambda>c. c = KEYPAD_NO_KEY) (map kchar ks))" for ks
    by (simp add: freeSlots_def filter_map comp_def)
  then show "map kchar ks' = map kchar ks \<Longrightarrow> freeSlots ks' = freeSlots ks" by metis
qed

lemma length_filter_update:
  assumes "i < length xs" "P (xs ! i)" "\<not> P v"
  shows "Suc (length (filter P (xs[i := v]))) = length (filter P xs)"
proof -
  have "xs = take i xs @ xs ! i # drop (Suc i) xs" using assms(1) by (simp add: id_take_nth_drop)
  then have "length (filter P xs)
      = length (filter P (take i xs)) + Suc (length (filter P (drop (Suc i) xs)))"
    using assms(2) by (metis filter.simps(2) filter_append length_append length_Cons)
  moreover have "xs[i := v] = take i xs @ v # drop (Suc i) xs"
    using assms(1) by (simp add: upd_conv_take_nth_drop)
  then have "length (filter P (xs[i := v]))
      = length (filter P (take i xs)) + length (filter P (drop (Suc i) xs))"
    using assms(3) by simp
  ultimately show ?thesis by simp
qed

lemma freeSlots_alloc:
  assumes "i < length ks" "kchar (ks ! i) = KEYPAD_NO_KEY" "kchar v \<noteq> KEYPAD_NO_KEY"
  shows "Suc (freeSlots (ks[i := v])) = freeSlots ks"
  unfolding freeSlots_def using assms by (intro length_filter_update) simp_all

lemma freeSlots_zero:
  "(freeSlots ks = 0) = (\<forall>j<length ks. kchar (ks ! j) \<noteq> KEYPAD_NO_KEY)"
  by (auto simp: freeSlots_def filter_empty_conv in_set_conv_nth) (metis nth_mem)

text \<open>A slot that holds a key keeps its character and its code during the loop over the cells.\<close>

lemma addKey_occupied:
  assumes inv: "scan_inv (s, e)" and g: "in_grid s x"
    and i: "i < length (key s)" "kchar (key s ! i) \<noteq> KEYPAD_NO_KEY"
  shows "kchar (key (fst ((\<lambda>(r, c). addKey r c) x (s, e))) ! i) = kchar (key s ! i)
       \<and> kcode (key (fst ((\<lambda>(r, c). addKey r c) x (s, e))) ! i) = kcode (key s ! i)"
proof -
  obtain r c where x: "x = (r, c)" by (cases x)
  have rc: "r < unat (rows (sizeKpd s))" "c < unat (columns (sizeKpd s))"
    using g by (simp_all add: x in_grid_def)
  from inv rc show ?thesis
  proof (cases rule: addKey_step)
    case (found j)
    show ?thesis
      using found(1)
      by (cases "i = j") (simp_all add: x found(3) nextKeyState_eq[OF found(1)] Let_def)
  next
    case (new s')
    then have "unat e \<noteq> i" using i(2) by auto
    then show ?thesis by (simp add: x new(6,7))
  next
    case dropped
    then show ?thesis by (simp add: x)
  qed
qed

lemma addKey_fold_occupied:
  "scan_inv p \<Longrightarrow> \<forall>x\<in>set xs. in_grid (fst p) x \<Longrightarrow>
   i < length (key (fst p)) \<Longrightarrow> kchar (key (fst p) ! i) \<noteq> KEYPAD_NO_KEY \<Longrightarrow>
   kchar (key (fst (fold (\<lambda>(r, c). addKey r c) xs p)) ! i) = kchar (key (fst p) ! i)
   \<and> kcode (key (fst (fold (\<lambda>(r, c). addKey r c) xs p)) ! i) = kcode (key (fst p) ! i)"
proof (induction xs arbitrary: p)
  case Nil
  then show ?case by simp
next
  case (Cons x xs)
  obtain s e where p: "p = (s, e)" by (cases p)
  let ?p1 = "(\<lambda>(r, c). addKey r c) x p"
  have 1: "scan_inv ?p1" "static (fst p) (fst ?p1)"
    using addKey_inv'[of p x] Cons.prems by simp_all
  have same: "kchar (key (fst ?p1) ! i) = kchar (key (fst p) ! i)"
    "kcode (key (fst ?p1) ! i) = kcode (key (fst p) ! i)"
    using addKey_occupied[of s e x i] Cons.prems by (simp_all add: p)
  have "sizeKpd (fst ?p1) = sizeKpd (fst p)" using 1(2) by (simp add: static_def)
  then have g: "in_grid (fst ?p1) = in_grid (fst p)" by (rule in_grid_cong)
  have "kchar (key (fst (fold (\<lambda>(r, c). addKey r c) xs ?p1)) ! i) = kchar (key (fst ?p1) ! i)
   \<and> kcode (key (fst (fold (\<lambda>(r, c). addKey r c) xs ?p1)) ! i) = kcode (key (fst ?p1) ! i)"
  proof (rule Cons.IH[OF 1(1)])
    show "\<forall>x\<in>set xs. in_grid (fst ?p1) x" using Cons.prems(2) g by simp
    show "i < length (key (fst ?p1))" using Cons.prems(3) 1(2) by (simp add: static_def)
    show "kchar (key (fst ?p1) ! i) \<noteq> KEYPAD_NO_KEY" using Cons.prems(4) same by simp
  qed
  with same show ?case by simp
qed

lemma isNew_cong:
  assumes "static s s1" "set (map kcode (key s1)) - {- 1} = set (map kcode (key s)) - {- 1}"
  shows "isNew s1 y = isNew s y"
proof -
  have "sizeKpd s1 = sizeKpd s" "bitMap s1 = bitMap s" using assms(1) by (simp_all add: static_def)
  then have 1: "codeOf s1 y = codeOf s y" "cellClosed s1 y = cellClosed s y"
    by (simp_all add: codeOf_def cellCode_def cellClosed_def)
  have "(int (codeOf s y) \<in> set (map kcode (key s1)) - {- 1})
        = (int (codeOf s y) \<in> set (map kcode (key s)) - {- 1})"
    by (simp only: assms(2))
  moreover have "int (codeOf s y) \<noteq> - 1" by simp
  ultimately have "(int (codeOf s y) \<in> set (map kcode (key s1)))
               = (int (codeOf s y) \<in> set (map kcode (key s)))"
    by blast
  with 1 show ?thesis by (simp add: isNew_def)
qed

text \<open>
  The loop over the cells gives the empty slots to the new presses in the order of the
  cells, until the slots or the presses run out.
\<close>

lemma alloc_general:
  "scan_inv p \<Longrightarrow> \<forall>u\<in>set xs. in_grid (fst p) u \<Longrightarrow> distinct (map (codeOf (fst p)) xs) \<Longrightarrow>
   freeSlots (key (fst (fold (\<lambda>(r, c). addKey r c) xs p)))
     = freeSlots (key (fst p)) - length (filter (isNew (fst p)) xs)
   \<and> (\<forall>y\<in>set (filter (isNew (fst p)) xs).
         (int (codeOf (fst p) y) \<in> set (map kcode (key (fst (fold (\<lambda>(r, c). addKey r c) xs p)))))
         = (y \<in> set (take (freeSlots (key (fst p))) (filter (isNew (fst p)) xs))))"
proof (induction xs arbitrary: p)
  case Nil
  then show ?case by simp
next
  case (Cons x xs)
  let ?f = "\<lambda>(r, c). addKey r c"
  obtain s e where p: "p = (s, e)" by (cases p)
  obtain r c where x: "x = (r, c)" by (cases x)
  let ?p1 = "?f x p"
  obtain s1 e1 where p1: "?p1 = (s1, e1)" by (cases ?p1)
  have inv: "scan_inv (s, e)" using Cons.prems(1) p by simp
  have g: "geometry_ok s" and ro: "registry_ok s" and e: "e = nextEmpty s"
    using inv by (simp_all add: scan_inv_def)
  have lm: "KEYPAD_LIST_MAX s \<le> 128" using g by (simp add: geometry_ok_def)
  have rc: "r < unat (rows (sizeKpd s))" "c < unat (columns (sizeKpd s))"
    using Cons.prems(2) by (simp_all add: p x in_grid_def)
  have inv1: "scan_inv (s1, e1)" and st: "static s s1"
    using addKey_inv'[of p x] Cons.prems(1,2) p1 by (simp_all add: p)
  have st': "sizeKpd s1 = sizeKpd s" "length (key s1) = length (key s)"
    using st by (simp_all add: static_def)
  have gc: "in_grid s1 = in_grid s" "codeOf s1 = codeOf s"
    using st'(1) by (rule in_grid_cong, rule codeOf_cong)
  have grid1: "\<forall>u\<in>set xs. in_grid (fst (s1, e1)) u" using Cons.prems(2) gc by (simp add: p)
  have dist1: "distinct (map (codeOf (fst (s1, e1))) xs)" using Cons.prems(3) gc by (simp add: p)
  have "codeOf s x \<notin> codeOf s ` set xs" using Cons.prems(3) by (simp add: p)
  then have notx: "\<forall>y\<in>set xs. codeOf s y \<noteq> codeOf s x" by (metis imageI)
  note IH = Cons.IH[OF _ grid1 dist1, simplified]
  note IH0 = Cons.IH[OF inv1 grid1 dist1]
  let ?s' = "fst (fold ?f xs (s1, e1))"
  note fold = p1[unfolded p]
  have cx: "codeOf s x = cellCode s r c" "cellClosed s x = bitRead (bitMap s ! r) c"
    by (simp_all add: x codeOf_def cellClosed_def)
  from inv rc show ?case
  proof (cases rule: addKey_step)
    case (found j)
    have s1: "s1 = nextKeyState j (bitRead (bitMap s ! r) c) s" and e1: "e1 = e"
      using found(3) p1 by (simp_all add: p x)
    have m: "map kcode (key s1) = map kcode (key s)" "map kchar (key s1) = map kchar (key s)"
      by (simp_all add: s1 nextKeyState_eq[OF found(1)] Let_def map_update
          list_update_same_conv found(1))
    have "int (codeOf s x) \<in> set (map kcode (key s))"
      using found(1,2) cx by (metis length_map nth_map nth_mem)
    then have nx: "\<not> isNew s x" by (simp add: isNew_def)
    have n1: "isNew s1 = isNew s"
      using isNew_cong[OF st] m(1) by (simp add: fun_eq_iff)
    have f1: "freeSlots (key s1) = freeSlots (key s)" by (rule freeSlots_kchar[OF m(2)])
    show ?thesis
      using IH[OF inv1] nx by (simp add: p fold n1 f1 gc)
  next
    case (new s2)
    have s1: "s1 = s2" using new(6) p1 by (simp add: p x)
    have k1: "key s1 = (key s)[unat e := newKey s (cellCode s r c)]" using new(7) s1 by simp
    have isx: "isNew s x"
      using new(1,2) cx by (auto simp: isNew_def in_set_conv_nth)
    have km: "keymap s (cellCode s r c) \<noteq> KEYPAD_NO_KEY"
      using g cellCode_less[OF rc] by (simp add: geometry_ok_def list_all_iff)
    have f1: "Suc (freeSlots (key s1)) = freeSlots (key s)"
      unfolding k1 using new(4,5) km by (intro freeSlots_alloc) (simp_all add: newKey_def)
    have ce: "kcode (key s ! unat e) = -1"
      using registry_ok_code_char[OF ro new(4)] new(5) by simp
    have n1: "isNew s1 y = isNew s y" if "y \<in> set xs" for y
    proof -
      have cy: "int (codeOf s y) \<noteq> int (cellCode s r c)" using notx that cx by simp
      have a: "int (codeOf s y) \<in> set (map kcode (key s1))
               \<Longrightarrow> int (codeOf s y) \<in> set (map kcode (key s))"
        using set_update_subset_insert[of "map kcode (key s)" "unat e" "int (cellCode s r c)"] cy
        by (auto simp: k1 map_update newKey_def)
      have b: "int (codeOf s y) \<in> set (map kcode (key s1))"
        if "int (codeOf s y) \<in> set (map kcode (key s))"
      proof -
        from that obtain j where j: "j < length (key s)" "kcode (key s ! j) = int (codeOf s y)"
          by (auto simp: in_set_conv_nth)
        then have "j \<noteq> unat e" using ce by auto
        then have "kcode (key s1 ! j) = int (codeOf s y)" using j by (simp add: k1)
        then show ?thesis using j(1) st'(2) by (metis length_map nth_map nth_mem)
      qed
      have "sizeKpd s1 = sizeKpd s" "bitMap s1 = bitMap s" using st by (simp_all add: static_def)
      then have "codeOf s1 y = codeOf s y" "cellClosed s1 y = cellClosed s y"
        by (simp_all add: codeOf_def cellCode_def cellClosed_def)
      then show ?thesis using a b by (auto simp: isNew_def)
    qed
    then have news: "filter (isNew s1) xs = filter (isNew s) xs" by (intro filter_cong) simp_all
    have occ: "kcode (key ?s' ! unat e) = int (cellCode s r c)"
      using addKey_fold_occupied[OF inv1 grid1, of "unat e"] new(4) km st'(2)
      by (simp add: k1 newKey_def)
    have len': "length (key ?s') = length (key s)"
      using addKey_fold_inv[OF inv1 grid1] st'(2) by (simp add: static_def)
    have inx: "int (codeOf s x) \<in> set (map kcode (key ?s'))"
      using occ new(4) len' cx by (metis length_map nth_map nth_mem)
    obtain n where n: "freeSlots (key s) = Suc n" "freeSlots (key s1) = n" using f1 by simp
    have IH': "freeSlots (key ?s') = n - length (filter (isNew s) xs)"
      "\<forall>y\<in>set (filter (isNew s) xs).
         (int (codeOf s y) \<in> set (map kcode (key ?s')))
         = (y \<in> set (take n (filter (isNew s) xs)))"
      using IH0 unfolding fst_conv news n(2) gc(2) by blast+
    have rest: "(int (codeOf s y) \<in> set (map kcode (key ?s')))
              = (y \<in> set (take (Suc n) (x # filter (isNew s) xs)))"
      if "y \<in> set (filter (isNew s) xs)" for y
    proof -
      have "y \<noteq> x" using that notx by auto
      moreover have "(int (codeOf s y) \<in> set (map kcode (key ?s')))
                     = (y \<in> set (take n (filter (isNew s) xs)))"
        by (rule IH'(2)[rule_format, OF that])
      ultimately show ?thesis by simp
    qed
    show ?thesis
      using IH'(1) isx inx rest by (simp add: p fold n)
  next
    case dropped
    have same: "s1 = s" "e1 = e" using dropped(3) p1 by (simp_all add: p x)
    show ?thesis
    proof (cases "isNew s x")
      case False
      then show ?thesis using IH[OF inv1] by (simp add: p fold same)
    next
      case True
      then have "e = 0xFF" using dropped(2) cx by (simp add: isNew_def)
      then have full: "\<forall>j<length (key s). kchar (key s ! j) \<noteq> KEYPAD_NO_KEY"
        using nextEmpty_cases[OF lm] e by auto
      then have f0: "freeSlots (key s) = 0" by (simp add: freeSlots_zero)
      have len': "length (key ?s') = length (key s)"
        using addKey_fold_inv[OF inv1 grid1] same by (simp add: static_def)
      have "map kcode (key ?s') = map kcode (key s)"
      proof (rule nth_equalityI)
        show "length (map kcode (key ?s')) = length (map kcode (key s))" using len' by simp
        fix j assume "j < length (map kcode (key ?s'))"
        then have j: "j < length (key s)" using len' by simp
        then show "map kcode (key ?s') ! j = map kcode (key s) ! j"
          using addKey_fold_occupied[OF inv1 grid1, of j] full same len' by simp
      qed
      then have "int (codeOf s x) \<notin> set (map kcode (key ?s'))"
        using True by (simp add: isNew_def)
      then show ?thesis
        using IH[OF inv1] True by (simp add: p fold same f0)
    qed
  qed
qed

lemma cleaned_isNew:
  "isNew (cleaned s) y
     = (cellClosed s y
        \<and> int (codeOf s y) \<notin> set (map kcode (filter (\<lambda>k. kstate k \<noteq> IDLE) (key s))))"
proof -
  have "codeOf (cleaned s) y = codeOf s y" "cellClosed (cleaned s) y = cellClosed s y"
    by (simp_all add: codeOf_def cellCode_def cellClosed_def cleaned_fields)
  moreover have "(int (codeOf s y) \<in> set (map kcode (key (cleaned s))))
     = (int (codeOf s y) \<in> set (map kcode (filter (\<lambda>k. kstate k \<noteq> IDLE) (key s))))"
    by (rule cleaned_codes) simp
  ultimately show ?thesis by (simp add: isNew_def)
qed

lemma cleaned_freeSlots:
  assumes "registry_ok s"
  shows "freeSlots (key (cleaned s)) = length (filter (\<lambda>k. kstate k = IDLE) (key s))"
proof -
  have "kchar k = KEYPAD_NO_KEY \<longrightarrow> kstate k = IDLE" if "k \<in> set (key s)" for k
  proof -
    from that obtain i where "i < length (key s)" "k = key s ! i" by (auto simp: in_set_conv_nth)
    then have "slot_ok (nCells s) k" using assms by (simp add: registry_ok_def)
    then show ?thesis by (simp add: slot_ok_def)
  qed
  then have "filter (\<lambda>k. kchar (clearIdle k) = KEYPAD_NO_KEY) (key s)
           = filter (\<lambda>k. kstate k = IDLE) (key s)"
    by (intro filter_cong) (auto simp: clearIdle_def)
  then show ?thesis
    by (simp add: freeSlots_def cleaned_def filter_map comp_def)
qed

text \<open>
  An update from a well-formed list: the new presses get the free slots in the order of
  their key codes.
\<close>

lemma updateList_alloc:
  assumes g: "geometry_ok s" and ro: "registry_ok s"
  shows "freeSlots (key (snd (updateList s)))
           = length (filter (\<lambda>k. kstate k = IDLE) (key s)) - length (newPresses s)"
    and "\<forall>y\<in>set (newPresses s).
           (int (codeOf s y) \<in> set (map kcode (key (snd (updateList s)))))
           = (y \<in> set (take (length (filter (\<lambda>k. kstate k = IDLE) (key s))) (newPresses s)))"
proof -
  let ?p = "(cleaned s, nextEmpty (cleaned s))"
  have lm: "KEYPAD_LIST_MAX s \<le> 128" using g by (simp add: geometry_ok_def)
  have c: "cells (cleaned s) = cells s" "codeOf (cleaned s) = codeOf s"
    by (simp_all add: cells_def codeOf_def cellCode_def cleaned_fields fun_eq_iff)
  have news: "filter (isNew (cleaned s)) (cells s) = newPresses s"
    unfolding newPresses_def by (intro filter_cong) (simp_all add: cleaned_isNew)
  have k: "key (snd (updateList s))
           = key (fst (fold (\<lambda>(r, c). addKey r c) (cells s) ?p))"
    by (simp add: updateList_fields(1)[OF lm] addKeys_cells c)
  have "freeSlots (key (fst (fold (\<lambda>(r, c). addKey r c) (cells s) ?p)))
     = freeSlots (key (fst ?p)) - length (filter (isNew (fst ?p)) (cells s))
   \<and> (\<forall>y\<in>set (filter (isNew (fst ?p)) (cells s)).
         (int (codeOf (fst ?p) y) \<in> set (map kcode (key (fst (fold (\<lambda>(r, c). addKey r c) (cells s) ?p)))))
         = (y \<in> set (take (freeSlots (key (fst ?p))) (filter (isNew (fst ?p)) (cells s)))))"
  proof (rule alloc_general[OF cleaned_inv[OF g ro]])
    show "\<forall>u\<in>set (cells s). in_grid (fst ?p) u"
      using cells_in_grid[of _ "cleaned s"] c by simp
    show "distinct (map (codeOf (fst ?p)) (cells s))"
      using distinct_codes[of s] c by simp
  qed
  then show "freeSlots (key (snd (updateList s)))
           = length (filter (\<lambda>k. kstate k = IDLE) (key s)) - length (newPresses s)"
    and "\<forall>y\<in>set (newPresses s).
           (int (codeOf s y) \<in> set (map kcode (key (snd (updateList s)))))
           = (y \<in> set (take (length (filter (\<lambda>k. kstate k = IDLE) (key s))) (newPresses s)))"
    unfolding fst_conv news k c cleaned_freeSlots[OF ro] by blast+
qed

lemma newPresses_sorted: "sorted_wrt (\<lambda>x y. codeOf s x < codeOf s y) (newPresses s)"
proof -
  have "sorted_wrt (<) (map (codeOf s) (cells s))" by (simp add: code_cells)
  then have "sorted_wrt (\<lambda>x y. codeOf s x < codeOf s y) (cells s)" by (simp add: sorted_wrt_map)
  then show ?thesis unfolding newPresses_def by (rule sorted_wrt_filter)
qed

text \<open>
  C6. The two loops visit the cells in row-major order, which is the order of the key
  codes. In a reachable state, an update gives the free slots (the slots in IDLE, which
  the cleanup pass empties) to the new presses in that order: a new press is in the list
  after the update exactly when it is among the first \<open>f\<close> new presses, \<open>f\<close> being the
  number of free slots. When exactly one slot is free, the new press with the lowest key
  code takes it (its character and code, in PRESSED), and every other new press has a
  higher key code and is not in the list after the update.
\<close>

theorem lowest_code_wins:
  assumes "reachable s"
  shows "addKeys (s, e) = fold (\<lambda>(r, c). addKey r c) (cells s) (s, e)
       \<and> map (codeOf s) (cells s) = [0..<nCells s]
       \<and> sorted_wrt (\<lambda>x y. codeOf s x < codeOf s y) (newPresses s)
       \<and> (\<forall>y\<in>set (newPresses s).
             (int (codeOf s y) \<in> set (map kcode (key (snd (updateList s)))))
             = (y \<in> set (take (length (filter (\<lambda>k. kstate k = IDLE) (key s))) (newPresses s))))
       \<and> (\<forall>i0 x rest.
             i0 < KEYPAD_LIST_MAX s \<and> kstate (key s ! i0) = IDLE
             \<and> (\<forall>j<KEYPAD_LIST_MAX s. j \<noteq> i0 \<longrightarrow> kstate (key s ! j) \<noteq> IDLE)
             \<and> newPresses s = x # rest
             \<longrightarrow> key (snd (updateList s)) ! i0 = newKey s (codeOf s x)
               \<and> (\<forall>y\<in>set rest. codeOf s x < codeOf s y
                     \<and> int (codeOf s y) \<notin> set (map kcode (key (snd (updateList s))))))"
proof -
  have g: "geometry_ok s" and ro: "registry_ok s" using reachable_inv[OF assms] by simp_all
  show ?thesis
    using addKeys_cells[of s e] code_cells[of s] newPresses_sorted[of s]
      updateList_alloc(2)[OF g ro] single_free_slot[OF assms]
    by blast
qed

theorem lowest_code_wins_witness:
  "newPresses contended_demo = [(1, 0), (1, 1)]
   \<and> map kstate (key contended_demo) = [PRESSED, IDLE]
   \<and> key (snd (updateList contended_demo)) ! 1
       = \<lparr>kchar = CHR ''3'', kcode = 2, kstate = PRESSED, stateChanged = True\<rparr>
   \<and> 3 \<notin> set (map kcode (key (snd (updateList contended_demo))))"
proof -
  have a: "newPresses contended_demo = [(1, 0), (1, 1)]"
    "map kstate (key contended_demo) = [PRESSED, IDLE]"
    "KEYPAD_LIST_MAX contended_demo = 2"
    "newKey contended_demo (codeOf contended_demo (1, 0))
       = \<lparr>kchar = CHR ''3'', kcode = 2, kstate = PRESSED, stateChanged = True\<rparr>"
    "codeOf contended_demo (1, 1) = 3"
    "kstate (key contended_demo ! 0) = PRESSED" "kstate (key contended_demo ! 1) = IDLE"
    by code_simp+
  have b: "\<forall>j<KEYPAD_LIST_MAX contended_demo. j \<noteq> 1 \<longrightarrow> kstate (key contended_demo ! j) \<noteq> IDLE"
    using a(3,6) by (auto simp: less_Suc_eq numeral_2_eq_2)
  have prem: "1 < KEYPAD_LIST_MAX contended_demo \<and> kstate (key contended_demo ! 1) = IDLE
      \<and> (\<forall>j<KEYPAD_LIST_MAX contended_demo. j \<noteq> 1 \<longrightarrow> kstate (key contended_demo ! j) \<noteq> IDLE)
      \<and> newPresses contended_demo = (1, 0) # [(1, 1)]"
    using a(1,3,7) b by simp
  have "\<forall>i0 x rest.
         i0 < KEYPAD_LIST_MAX contended_demo \<and> kstate (key contended_demo ! i0) = IDLE
         \<and> (\<forall>j<KEYPAD_LIST_MAX contended_demo. j \<noteq> i0 \<longrightarrow> kstate (key contended_demo ! j) \<noteq> IDLE)
         \<and> newPresses contended_demo = x # rest
         \<longrightarrow> key (snd (updateList contended_demo)) ! i0
               = newKey contended_demo (codeOf contended_demo x)
           \<and> (\<forall>y\<in>set rest. codeOf contended_demo x < codeOf contended_demo y
                 \<and> int (codeOf contended_demo y)
                     \<notin> set (map kcode (key (snd (updateList contended_demo)))))"
    using lowest_code_wins[OF reachable_contended_demo, of 0] by blast
  from this[rule_format, OF prem]
  have "key (snd (updateList contended_demo)) ! 1
          = newKey contended_demo (codeOf contended_demo (1, 0))
      \<and> (\<forall>y\<in>set [(1, 1)]. codeOf contended_demo (1, 0) < codeOf contended_demo y
            \<and> int (codeOf contended_demo y)
                \<notin> set (map kcode (key (snd (updateList contended_demo)))))" .
  then show ?thesis using a by simp
qed

lemma length_occupied:
  "length (filter (\<lambda>k. kchar k \<noteq> KEYPAD_NO_KEY) ks) = length ks - freeSlots ks"
  using sum_length_filter_compl[of "\<lambda>k. kchar k = KEYPAD_NO_KEY" ks]
  by (simp add: freeSlots_def)

text \<open>
  C5. From an empty key list of \<open>N\<close> slots, an update with \<open>m\<close> closed cells leaves
  \<open>min m N\<close> slots occupied, so \<open>N\<close> of them when \<open>N + 1\<close> keys are closed; the keys in
  the list are the first \<open>N\<close> closed cells in the order of the loops. A press that finds
  no free slot (\<open>emptyPos\<close> is \<open>0xFF\<close>) and whose code is not in the list leaves the whole
  keypad, the trace of its effects included, as it was.
\<close>

theorem capacity_bound:
  assumes "geometry_ok s" "registry_empty s"
  shows "length (filter (\<lambda>k. kchar k \<noteq> KEYPAD_NO_KEY) (key (snd (updateList s))))
           = min (length (filter (cellClosed s) (cells s))) (KEYPAD_LIST_MAX s)
       \<and> (length (filter (cellClosed s) (cells s)) = Suc (KEYPAD_LIST_MAX s)
            \<longrightarrow> length (filter (\<lambda>k. kchar k \<noteq> KEYPAD_NO_KEY) (key (snd (updateList s))))
                  = KEYPAD_LIST_MAX s)
       \<and> (\<forall>y\<in>set (filter (cellClosed s) (cells s)).
             (int (codeOf s y) \<in> set (map kcode (key (snd (updateList s)))))
             = (y \<in> set (take (KEYPAD_LIST_MAX s) (filter (cellClosed s) (cells s)))))
       \<and> (\<forall>t r c. geometry_ok t \<and> r < unat (rows (sizeKpd t)) \<and> c < unat (columns (sizeKpd t))
             \<and> int (cellCode t r c) \<notin> set (map kcode (key t))
             \<longrightarrow> addKey r c (t, 0xFF) = (t, 0xFF))"
proof -
  have ro: "registry_ok s" by (rule registry_empty_ok[OF assms(2)])
  have all: "\<forall>k\<in>set (key s). k = idleKey" using assms(2) by (simp add: registry_empty_def list_all_iff)
  then have idle: "filter (\<lambda>k. kstate k = IDLE) (key s) = key s"
    and busy: "filter (\<lambda>k. kstate k \<noteq> IDLE) (key s) = []"
    by (auto simp: idleKey_def filter_id_conv filter_empty_conv)
  have news: "newPresses s = filter (cellClosed s) (cells s)"
    by (simp add: newPresses_def busy)
  have len: "length (key (snd (updateList s))) = length (key s)"
    using updateList_inv[OF assms(1) ro] by (simp add: static_def)
  have free: "freeSlots (key (snd (updateList s)))
              = KEYPAD_LIST_MAX s - length (filter (cellClosed s) (cells s))"
    using updateList_alloc(1)[OF assms(1) ro] by (simp add: idle news KEYPAD_LIST_MAX_def)
  have 1: "length (filter (\<lambda>k. kchar k \<noteq> KEYPAD_NO_KEY) (key (snd (updateList s))))
           = min (length (filter (cellClosed s) (cells s))) (KEYPAD_LIST_MAX s)"
    by (simp add: length_occupied free len KEYPAD_LIST_MAX_def)
  have 3: "\<forall>y\<in>set (filter (cellClosed s) (cells s)).
             (int (codeOf s y) \<in> set (map kcode (key (snd (updateList s)))))
             = (y \<in> set (take (KEYPAD_LIST_MAX s) (filter (cellClosed s) (cells s))))"
    using updateList_alloc(2)[OF assms(1) ro] by (simp add: idle news KEYPAD_LIST_MAX_def)
  have 4: "addKey r c (t, 0xFF) = (t, 0xFF)"
    if "geometry_ok t \<and> r < unat (rows (sizeKpd t)) \<and> c < unat (columns (sizeKpd t))
             \<and> int (cellCode t r c) \<notin> set (map kcode (key t))" for t r c
  proof (rule addKey_dropped)
    show "cellCode t r c < 256"
      using that cellCode_less[of r t c] by (simp add: geometry_ok_def)
    show "\<forall>i<length (key t). kcode (key t ! i) \<noteq> int (cellCode t r c)"
      using that by (metis length_map nth_map nth_mem)
    show "\<not> (bitRead (bitMap t ! r) c \<and> (0xFF::byte) \<noteq> 0xFF)" by simp
  qed
  show ?thesis using 1 3 4 by simp
qed

theorem capacity_bound_witness:
  "KEYPAD_LIST_MAX crowded_demo = 2
   \<and> map (codeOf crowded_demo) (filter (cellClosed crowded_demo) (cells crowded_demo)) = [0, 1, 2]
   \<and> length (filter (\<lambda>k. kchar k \<noteq> KEYPAD_NO_KEY) (key (snd (updateList crowded_demo)))) = 2
   \<and> map kcode (key (snd (updateList crowded_demo))) = [0, 1]"
proof -
  have a: "geometry_ok crowded_demo" "registry_empty crowded_demo"
    "KEYPAD_LIST_MAX crowded_demo = 2"
    "map (codeOf crowded_demo) (filter (cellClosed crowded_demo) (cells crowded_demo)) = [0, 1, 2]"
    "map kcode (key (snd (updateList crowded_demo))) = [0, 1]"
    by code_simp+
  have "length (filter (cellClosed crowded_demo) (cells crowded_demo)) = 3"
    using a(4) by (metis length_map length_Cons list.size(3) numeral_3_eq_3)
  then show ?thesis
    using capacity_bound[OF a(1,2)] a by simp
qed

end
